theory Spec2Isabelle
  imports Main "HOL-Library.Sublist" "HOL-Library.Char_ord" "HOL-Library.List_Lexorder"
begin

section \<open>The search_index management command\<close>

text \<open>
  A shallow embedding of \<^verbatim>\<open>django_elasticsearch_dsl/management/commands/search_index.py\<close>:
  the methods of \<^verbatim>\<open>Command\<close> that resolve the \<^verbatim>\<open>--models\<close> filter and drive the
  search backend (create, populate, delete, rebuild, reindex).

  The command talks to three collaborators that are not part of the file: the document
  registry, the Elasticsearch client and the terminal. The registry is a parameter (a
  record of its three query methods). The backend is a small explicit state: which
  indices exist and which aliases each of them carries. Every request the command issues
  is appended to a trace together with the backend state right after it, so that both the
  order of the requests and the states an observer can see between two requests can be
  talked about. Strings are ASCII.
\<close>

subsection \<open>Strings\<close>

text \<open>\<^verbatim>\<open>str.lower\<close> on ASCII text.\<close>

definition lower_char :: "char \<Rightarrow> char" where
  "lower_char c =
     (case map_of (zip ''ABCDEFGHIJKLMNOPQRSTUVWXYZ'' ''abcdefghijklmnopqrstuvwxyz'') c of
        None \<Rightarrow> c
      | Some d \<Rightarrow> d)"

definition lower :: "string \<Rightarrow> string" where
  "lower s = map lower_char s"

definition digit_char :: "nat \<Rightarrow> char" where
  "digit_char d = ''0123456789'' ! (d mod 10)"

text \<open>\<^verbatim>\<open>str(n)\<close> of a natural number, as \<^verbatim>\<open>'{}'.format(n)\<close> prints it.\<close>

fun str_nat :: "nat \<Rightarrow> string" where
  "str_nat n =
     (if n < 10 then [digit_char n] else str_nat (n div 10) @ [digit_char (n mod 10)])"

declare str_nat.simps [simp del]

text \<open>Zero padding to a minimal width, as the \<^verbatim>\<open>%m\<close>, \<^verbatim>\<open>%d\<close>, ... fields of strftime do.\<close>

definition zfill :: "nat \<Rightarrow> string \<Rightarrow> string" where
  "zfill w s = replicate (w - length s) CHR ''0'' @ s"

text \<open>The text \<^verbatim>\<open>'{}'\<close> of the messages: the argument between two apostrophes.\<close>

definition quoted :: "string \<Rightarrow> string" where
  "quoted s = [CHR 0x27] @ s @ [CHR 0x27]"

fun join :: "string \<Rightarrow> string list \<Rightarrow> string" where
  "join sep [] = []"
| "join sep [x] = x"
| "join sep (x # y # ys) = x @ sep @ join sep (y # ys)"

subsection \<open>Timestamps\<close>

record datetime =
  year :: nat
  month :: nat
  day :: nat
  hour :: nat
  minute :: nat
  second :: nat

text \<open>\<^verbatim>\<open>strftime('%Y.%m.%d.%H.%M.%S')\<close>.\<close>

definition strftime :: "datetime \<Rightarrow> string" where
  "strftime t =
     zfill 4 (str_nat (year t)) @ ''.'' @ zfill 2 (str_nat (month t)) @ ''.'' @
     zfill 2 (str_nat (day t)) @ ''.'' @ zfill 2 (str_nat (hour t)) @ ''.'' @
     zfill 2 (str_nat (minute t)) @ ''.'' @ zfill 2 (str_nat (second t))"

text \<open>
  The datetimes \<^verbatim>\<open>timezone.now()\<close> returns: a four-digit year and fields in the ranges of
  \<^verbatim>\<open>datetime\<close>.
\<close>

definition clock_datetime :: "datetime \<Rightarrow> bool" where
  "clock_datetime t =
     (1000 \<le> year t \<and> year t \<le> 9999 \<and> 1 \<le> month t \<and> month t \<le> 12 \<and>
      1 \<le> day t \<and> day t \<le> 31 \<and> hour t < 24 \<and> minute t < 60 \<and> second t < 60)"

text \<open>Creation time order: the order of datetimes, most significant field first.\<close>

definition stamp_fields :: "datetime \<Rightarrow> nat list" where
  "stamp_fields t = [year t, month t, day t, hour t, minute t, second t]"

definition earlier :: "datetime \<Rightarrow> datetime \<Rightarrow> bool" where
  "earlier t1 t2 = (stamp_fields t1 < stamp_fields t2)"

subsection \<open>Models, documents and the registry\<close>

record model =
  app_label :: string
  model_name :: string
  object_name :: string

record document =
  doc_index :: string
  doc_model :: model
  doc_queryset :: "nat list"

text \<open>
  The registry (\<^verbatim>\<open>registries.py\<close>, not part of the file) is a parameter:
  \<^verbatim>\<open>registry.get_models()\<close>, \<^verbatim>\<open>registry.get_indices(models)\<close> and
  \<^verbatim>\<open>registry.get_documents(models)\<close>, each in the order the command iterates over
  the result. An index object is identified with its name (\<^verbatim>\<open>str(index)\<close>); a
  document carries its alias (\<^verbatim>\<open>_doc_type.index\<close>), its model and the primary keys of
  its queryset.
\<close>

record registry =
  get_models :: "model list"
  get_indices :: "model set \<Rightarrow> string list"
  get_documents :: "model set \<Rightarrow> document list"

subsection \<open>Errors and outcomes\<close>

text \<open>
  \<^verbatim>\<open>CommandError\<close> carries its message, a backend error the HTTP status of the
  rejected request.
\<close>

datatype error = CommandError string | BackendError nat

datatype 'a outcome = Return 'a | Raise error

subsection \<open>The search backend\<close>

text \<open>
  Modelled from the spec: the search backend (the Elasticsearch client, reached directly
  and through the package's index and document classes, none of which is in the file), as
  the interface of the spec lists it: create an index, delete an index, bulk write,
  refresh, put an alias, update aliases in one atomic request, list the indices matching a
  pattern. The state lists the existing indices, each with the aliases it carries;
  document contents are not part of it. An index expression is a name, or a prefix
  followed by the wildcard \<^verbatim>\<open>*\<close> (the only form of wildcard the command sends). A
  request is rejected only where the state makes the backend reject it; failures of the
  connection are outside the model.
\<close>

type_synonym es_state = "(string \<times> string list) list"

definition es_names :: "es_state \<Rightarrow> string list" where
  "es_names s = map fst s"

definition alias_targets :: "string \<Rightarrow> es_state \<Rightarrow> string list" where
  "alias_targets a s = map fst (filter (\<lambda>(n, as). a \<in> set as) s)"

definition is_wildcard :: "string \<Rightarrow> bool" where
  "is_wildcard expr = (expr \<noteq> [] \<and> last expr = CHR ''*'')"

definition expr_matches :: "string \<Rightarrow> string \<Rightarrow> bool" where
  "expr_matches expr n = (if is_wildcard expr then prefix (butlast expr) n else expr = n)"

definition resolve :: "string \<Rightarrow> es_state \<Rightarrow> string list" where
  "resolve expr s = filter (expr_matches expr) (es_names s)"

definition es_exists :: "string \<Rightarrow> es_state \<Rightarrow> bool" where
  "es_exists n s = (n \<in> set (es_names s) \<or> alias_targets n s \<noteq> [])"

text \<open>
  Modelled from the spec: \<^verbatim>\<open>create_index\<close>, behind \<^verbatim>\<open>index.create()\<close> and
  \<^verbatim>\<open>doc_instance.init(name)\<close>. Creating an index that exists is rejected (400).
\<close>

definition es_create :: "string \<Rightarrow> es_state \<Rightarrow> error + es_state" where
  "es_create n s =
     (if n \<in> set (es_names s) then Inl (BackendError 400) else Inr (s @ [(n, [])]))"

text \<open>
  Modelled from the spec: \<^verbatim>\<open>delete_index\<close>, behind \<^verbatim>\<open>index.delete\<close> and
  \<^verbatim>\<open>es.indices.delete\<close>. Deleting an index removes it with its aliases; a missing
  index is a 404, which the caller may ask to ignore.
\<close>

definition es_delete :: "string \<Rightarrow> es_state \<Rightarrow> error + es_state" where
  "es_delete n s =
     (if n \<in> set (es_names s) then Inr (filter (\<lambda>(m, as). m \<noteq> n) s)
      else Inl (BackendError 404))"

text \<open>Modelled from the spec: \<^verbatim>\<open>refresh\<close>; a missing index is a 404.\<close>

definition es_refresh :: "string \<Rightarrow> es_state \<Rightarrow> error + es_state" where
  "es_refresh n s = (if es_exists n s then Inr s else Inl (BackendError 404))"

text \<open>
  Modelled from the spec: \<^verbatim>\<open>bulk_write\<close>, behind \<^verbatim>\<open>doc.update(qs)\<close>. A bulk write
  changes document contents only, which the state does not hold; writing documents to a
  name that does not exist creates the index.
\<close>

definition es_bulk :: "string \<Rightarrow> nat list \<Rightarrow> es_state \<Rightarrow> error + es_state" where
  "es_bulk n docs s = (if docs = [] \<or> es_exists n s then Inr s else Inr (s @ [(n, [])]))"

definition add_alias :: "string \<Rightarrow> string \<Rightarrow> es_state \<Rightarrow> es_state" where
  "add_alias a expr s =
     map (\<lambda>(m, as). if expr_matches expr m then (m, List.insert a as) else (m, as)) s"

definition remove_alias :: "string \<Rightarrow> string \<Rightarrow> es_state \<Rightarrow> es_state" where
  "remove_alias a expr s =
     map (\<lambda>(m, as). if expr_matches expr m then (m, removeAll a as) else (m, as)) s"

text \<open>
  Modelled from the spec: \<^verbatim>\<open>put_alias(index, alias)\<close> adds the alias to the indices
  the expression matches; an expression that matches none is a 404.
\<close>

definition es_put_alias :: "string \<Rightarrow> string \<Rightarrow> es_state \<Rightarrow> error + es_state" where
  "es_put_alias expr a s =
     (if resolve expr s = [] then Inl (BackendError 404) else Inr (add_alias a expr s))"

text \<open>
  Modelled from the spec: \<^verbatim>\<open>update_aliases\<close>. The actions of one request, each with the alias and the index
  expression. They are applied in order to one state; the request is atomic: an observer
  sees the state before it or the state after all of its actions, and a rejected action
  rejects the whole request.
\<close>

datatype alias_action = Remove string string | Add string string

fun apply_action :: "alias_action \<Rightarrow> es_state \<Rightarrow> error + es_state" where
  "apply_action (Remove a expr) s = Inr (remove_alias a expr s)"
| "apply_action (Add a expr) s =
     (if resolve expr s = [] then Inl (BackendError 404) else Inr (add_alias a expr s))"

fun es_update_aliases :: "alias_action list \<Rightarrow> es_state \<Rightarrow> error + es_state" where
  "es_update_aliases [] s = Inr s"
| "es_update_aliases (x # xs) s =
     (case apply_action x s of Inl e \<Rightarrow> Inl e | Inr s' \<Rightarrow> es_update_aliases xs s')"

text \<open>
  Modelled from the spec: \<^verbatim>\<open>list_indices\<close>, behind \<^verbatim>\<open>es.indices.get(expr)\<close>: the existing indices the expression matches, each once; a
  plain name that matches nothing is a 404.
\<close>

definition es_get :: "string \<Rightarrow> es_state \<Rightarrow> error + string list" where
  "es_get expr s =
     (if resolve expr s = [] \<and> \<not> is_wildcard expr then Inl (BackendError 404)
      else Inr (remdups (resolve expr s)))"

subsection \<open>The world the command runs in\<close>

datatype es_call =
    IndexCreate string
  | IndexDelete string
  | Bulk string "nat list"
  | Refresh string
  | PutAlias string string
  | UpdateAliases "alias_action list"
  | GetIndices string

text \<open>
  \<open>trace\<close> holds every backend request issued so far with the backend state right after it;
  \<open>stdout\<close> the messages written with \<^verbatim>\<open>self.stdout.write\<close>; \<open>prompts\<close> the prompts shown
  by \<^verbatim>\<open>input\<close>; \<open>clock\<close> the successive readings of \<^verbatim>\<open>timezone.now()\<close>.
\<close>

record world =
  backend :: es_state
  trace :: "(es_call \<times> es_state) list"
  stdout :: "string list"
  prompts :: "string list"
  clock :: "nat \<Rightarrow> datetime"
  clock_reads :: nat

type_synonym 'a action = "world \<Rightarrow> 'a outcome \<times> world"

definition return :: "'a \<Rightarrow> 'a action" where
  "return x w = (Return x, w)"

text \<open>Sequencing: an exception of the first statement skips the rest.\<close>

definition seq :: "'a action \<Rightarrow> ('a \<Rightarrow> 'b action) \<Rightarrow> 'b action" where
  "seq m f w = (case m w of (Return x, w') \<Rightarrow> f x w' | (Raise e, w') \<Rightarrow> (Raise e, w'))"

text \<open>A \<^verbatim>\<open>for\<close> loop over a list; an exception in the body leaves the loop.\<close>

fun for_each :: "'a list \<Rightarrow> ('a \<Rightarrow> unit action) \<Rightarrow> unit action" where
  "for_each [] body w = (Return (), w)"
| "for_each (x # xs) body w =
     (case body x w of
        (Return u, w') \<Rightarrow> for_each xs body w'
      | (Raise e, w') \<Rightarrow> (Raise e, w'))"

definition stdout_write :: "string \<Rightarrow> unit action" where
  "stdout_write msg w = (Return (), w\<lparr>stdout := stdout w @ [msg]\<rparr>)"

text \<open>\<^verbatim>\<open>input(prompt)\<close> shows the prompt and returns the line the user types.\<close>

definition input :: "string \<Rightarrow> string \<Rightarrow> string action" where
  "input prompt response w = (Return response, w\<lparr>prompts := prompts w @ [prompt]\<rparr>)"

definition timezone_now :: "datetime action" where
  "timezone_now w = (Return (clock w (clock_reads w)), w\<lparr>clock_reads := Suc (clock_reads w)\<rparr>)"

text \<open>A request that changes the backend: it is traced, and a rejection is raised.\<close>

definition request :: "es_call \<Rightarrow> (es_state \<Rightarrow> error + es_state) \<Rightarrow> unit action" where
  "request c op w =
     (case op (backend w) of
        Inl e \<Rightarrow> (Raise e, w\<lparr>trace := trace w @ [(c, backend w)]\<rparr>)
      | Inr s \<Rightarrow> (Return (), w\<lparr>backend := s, trace := trace w @ [(c, s)]\<rparr>))"

text \<open>A request that reads the backend.\<close>

definition query :: "es_call \<Rightarrow> (es_state \<Rightarrow> error + 'a) \<Rightarrow> 'a action" where
  "query c op w =
     (case op (backend w) of
        Inl e \<Rightarrow> (Raise e, w\<lparr>trace := trace w @ [(c, backend w)]\<rparr>)
      | Inr x \<Rightarrow> (Return x, w\<lparr>trace := trace w @ [(c, backend w)]\<rparr>))"

text \<open>The client's \<^verbatim>\<open>ignore=\<close> argument: a rejection with a listed status is no exception.\<close>

definition ignoring :: "nat list \<Rightarrow> unit action \<Rightarrow> unit action" where
  "ignoring codes m w =
     (case m w of
        (Raise (BackendError c), w') \<Rightarrow>
          if c \<in> set codes then (Return (), w') else (Raise (BackendError c), w')
      | r \<Rightarrow> r)"

subsection \<open>The command\<close>

record options =
  action :: "string option"
  models :: "string list option"
  force :: bool

text \<open>
  The inner loop of \<^verbatim>\<open>_get_models\<close> over the registered models, for one lowercased
  argument; the state is the list \<^verbatim>\<open>models\<close> and the flag \<^verbatim>\<open>match_found\<close>.
\<close>

fun match_models :: "string \<Rightarrow> model list \<Rightarrow> model list \<times> bool \<Rightarrow> model list \<times> bool" where
  "match_models arg [] st = st"
| "match_models arg (m # ms) (acc, match_found) =
     (if app_label m = arg then match_models arg ms (acc @ [m], True)
      else if lower (app_label m) @ ''.'' @ lower (model_name m) = arg
        then match_models arg ms (acc @ [m], True)
      else match_models arg ms (acc, match_found))"

text \<open>The outer loop over the arguments.\<close>

fun match_args :: "registry \<Rightarrow> string list \<Rightarrow> model list \<Rightarrow> error + model list" where
  "match_args reg [] acc = Inr acc"
| "match_args reg (a # as) acc =
     (let arg = lower a in
      case match_models arg (get_models reg) (acc, False) of
        (acc', match_found) \<Rightarrow>
          if \<not> match_found then Inl (CommandError (''No model or app named '' @ arg))
          else match_args reg as acc')"

text \<open>\<^verbatim>\<open>_get_models\<close>; \<^verbatim>\<open>args\<close> is \<^verbatim>\<open>None\<close> when \<^verbatim>\<open>--models\<close> is not given.\<close>

definition cmd_get_models :: "registry \<Rightarrow> string list option \<Rightarrow> error + model set" where
  "cmd_get_models reg args =
     (case args of
        None \<Rightarrow> Inr (set (get_models reg))
      | Some [] \<Rightarrow> Inr (set (get_models reg))
      | Some (a # as) \<Rightarrow>
          (case match_args reg (a # as) [] of Inl e \<Rightarrow> Inl e | Inr ms \<Rightarrow> Inr (set ms)))"

text \<open>\<^verbatim>\<open>_create\<close>: the body of its loop, and the loop.\<close>

definition create_body :: "string \<Rightarrow> unit action" where
  "create_body index =
     seq (stdout_write (''Creating index '' @ quoted index)) (\<lambda>_.
     request (IndexCreate index) (es_create index))"

definition cmd_create :: "registry \<Rightarrow> model set \<Rightarrow> options \<Rightarrow> unit action" where
  "cmd_create reg ms opts = for_each (get_indices reg ms) create_body"

text \<open>\<^verbatim>\<open>_populate\<close>: the body of its loop, and the loop.\<close>

definition populate_body :: "document \<Rightarrow> unit action" where
  "populate_body doc =
     (let qs = doc_queryset doc in
      seq (stdout_write (''Indexing '' @ str_nat (length qs) @ '' '' @
             quoted (object_name (doc_model doc)) @ '' objects'')) (\<lambda>_.
      request (Bulk (doc_index doc) qs) (es_bulk (doc_index doc) qs)))"

definition cmd_populate :: "registry \<Rightarrow> model set \<Rightarrow> options \<Rightarrow> unit action" where
  "cmd_populate reg ms opts = for_each (get_documents reg ms) populate_body"

text \<open>
  \<^verbatim>\<open>_delete\<close>: the prompt, the body of the loop, the loop with the final
  \<^verbatim>\<open>return True\<close>, and the method. \<open>response\<close> is the line the user types when asked;
  the result is the boolean the method returns.
\<close>

definition delete_prompt :: "string list \<Rightarrow> string" where
  "delete_prompt index_names =
     ''Are you sure you want to delete the '' @ quoted (join '', '' index_names) @
     '' indexes? [n/Y]: ''"

definition delete_body :: "string \<Rightarrow> unit action" where
  "delete_body index =
     seq (stdout_write (''Deleting index '' @ quoted index)) (\<lambda>_.
     ignoring [404] (request (IndexDelete index) (es_delete index)))"

definition delete_indices :: "registry \<Rightarrow> model set \<Rightarrow> bool action" where
  "delete_indices reg ms =
     seq (for_each (get_indices reg ms) delete_body) (\<lambda>_. return True)"

definition cmd_delete :: "registry \<Rightarrow> model set \<Rightarrow> options \<Rightarrow> string \<Rightarrow> bool action" where
  "cmd_delete reg ms opts response =
     (let index_names = get_indices reg ms in
      if \<not> force opts then
        seq (input (delete_prompt index_names) response) (\<lambda>response.
        if lower response \<noteq> ''y'' then
          seq (stdout_write ''Aborted'') (\<lambda>_. return False)
        else delete_indices reg ms)
      else delete_indices reg ms)"

text \<open>\<^verbatim>\<open>_rebuild\<close>.\<close>

definition cmd_rebuild :: "registry \<Rightarrow> model set \<Rightarrow> options \<Rightarrow> string \<Rightarrow> unit action" where
  "cmd_rebuild reg ms opts response =
     seq (cmd_delete reg ms opts response) (\<lambda>deleted.
     if \<not> deleted then return ()
     else seq (cmd_create reg ms opts) (\<lambda>_. cmd_populate reg ms opts))"

text \<open>\<^verbatim>\<open>_next_index_name\<close>: the name for the time read, and the method, which reads the clock.\<close>

definition generation_name :: "string \<Rightarrow> datetime \<Rightarrow> string" where
  "generation_name name t = name @ ''-'' @ strftime t"

definition cmd_next_index_name :: "string \<Rightarrow> string action" where
  "cmd_next_index_name name = seq timezone_now (\<lambda>now. return (generation_name name now))"

text \<open>The body of the loop of \<^verbatim>\<open>_reindex\<close>, for one document, and the loop.\<close>

definition reindex_doc :: "document \<Rightarrow> unit action" where
  "reindex_doc doc =
     (let alias = doc_index doc in
      seq (cmd_next_index_name alias) (\<lambda>next_index.
      seq (request (IndexCreate next_index) (es_create next_index)) (\<lambda>_.
      seq (stdout_write (''Creating index '' @ quoted next_index)) (\<lambda>_.
      let qs = doc_queryset doc in
      seq (stdout_write (''Indexing '' @ str_nat (length qs) @ '' '' @
             quoted (object_name (doc_model doc)) @ '' objects'')) (\<lambda>_.
      seq (request (Bulk next_index qs) (es_bulk next_index qs)) (\<lambda>_.
      seq (request (Refresh next_index) (es_refresh next_index)) (\<lambda>_.
      seq (stdout_write (''Updating alias '' @ quoted alias @ '' -> '' @
             quoted next_index)) (\<lambda>_.
      seq (request (PutAlias next_index alias) (es_put_alias next_index alias)) (\<lambda>_.
      seq (request (UpdateAliases [Remove alias (alias @ ''-*''), Add alias next_index])
             (es_update_aliases [Remove alias (alias @ ''-*''), Add alias next_index])) (\<lambda>_.
      seq (query (GetIndices (alias @ ''-*'')) (es_get (alias @ ''-*''))) (\<lambda>indices.
      let old_indices = filter (\<lambda>index. index \<noteq> next_index) indices in
      for_each old_indices (\<lambda>old_index.
        request (IndexDelete old_index) (es_delete old_index)))))))))))))"

definition cmd_reindex :: "registry \<Rightarrow> model set \<Rightarrow> options \<Rightarrow> unit action" where
  "cmd_reindex reg ms opts = for_each (get_documents reg ms) reindex_doc"

text \<open>\<^verbatim>\<open>handle\<close>.\<close>

definition handle :: "registry \<Rightarrow> options \<Rightarrow> string \<Rightarrow> unit action" where
  "handle reg opts response w =
     (if action opts = None \<or> action opts = Some [] then
        (Raise (CommandError (''No action specified. Must be one of'' @
           '' '' @ quoted ''--create'' @ '','' @ quoted ''--populate'' @ '', '' @
           quoted ''--delete'' @ '' or '' @ quoted ''--rebuild'' @ '' .'')), w)
      else
        let act = the (action opts) in
        case cmd_get_models reg (models opts) of
          Inl e \<Rightarrow> (Raise e, w)
        | Inr ms \<Rightarrow>
            if act = ''create'' then cmd_create reg ms opts w
            else if act = ''populate'' then cmd_populate reg ms opts w
            else if act = ''delete'' then
              seq (cmd_delete reg ms opts response) (\<lambda>_. return ()) w
            else if act = ''rebuild'' then cmd_rebuild reg ms opts response w
            else if act = ''reindex'' then cmd_reindex reg ms opts w
            else
              (Raise (CommandError (''Invalid action. Must be one of'' @
                 '' '' @ quoted ''--create'' @ '','' @ quoted ''--populate'' @ '', '' @
                 quoted ''--delete'' @ '', '' @ quoted ''--rebuild'' @ '' or '' @
                 quoted ''--reindex'' @ '' .'')), w))"


subsection \<open>Notions the statements use\<close>

text \<open>
  Matching as the spec words it, to be compared with what \<^verbatim>\<open>_get_models\<close> does: a
  filter string matches a model when it equals, up to case, the model's app label or its
  \<^verbatim>\<open>app.model\<close> name.
\<close>

definition spec_matches :: "string \<Rightarrow> model \<Rightarrow> bool" where
  "spec_matches a m =
     (lower a = lower (app_label m) \<or>
      lower a = lower (app_label m) @ ''.'' @ lower (model_name m))"

text \<open>The backend without the indices of the given names.\<close>

definition without :: "string list \<Rightarrow> es_state \<Rightarrow> es_state" where
  "without ns s = filter (\<lambda>(m, as). m \<notin> set ns) s"

text \<open>The request \<^verbatim>\<open>_populate\<close> sends for a document.\<close>

definition bulk_call :: "document \<Rightarrow> es_call" where
  "bulk_call doc = Bulk (doc_index doc) (doc_queryset doc)"

text \<open>The events a run has added to the trace.\<close>

definition new_events :: "world \<Rightarrow> world \<Rightarrow> (es_call \<times> es_state) list" where
  "new_events w w' = drop (length (trace w)) (trace w')"

text \<open>The events of deleting existing indices one after the other, from a backend state.\<close>

fun delete_events :: "string list \<Rightarrow> es_state \<Rightarrow> (es_call \<times> es_state) list" where
  "delete_events [] s = []"
| "delete_events (x # xs) s =
     (IndexDelete x, without [x] s) # delete_events xs (without [x] s)"

fun is_delete :: "es_call \<Rightarrow> bool" where
  "is_delete (IndexDelete n) = True"
| "is_delete c = False"

subsection \<open>A small site\<close>

text \<open>
  A registry with two models of the app \<^verbatim>\<open>blog\<close> and one of the app \<^verbatim>\<open>Shop\<close>, whose
  label is capitalised, and one document on the alias \<^verbatim>\<open>articles\<close>.
\<close>

definition post :: model where
  "post = \<lparr>app_label = ''blog'', model_name = ''post'', object_name = ''Post''\<rparr>"

definition comment :: model where
  "comment = \<lparr>app_label = ''blog'', model_name = ''comment'', object_name = ''Comment''\<rparr>"

definition product :: model where
  "product = \<lparr>app_label = ''Shop'', model_name = ''product'', object_name = ''Product''\<rparr>"

definition post_document :: document where
  "post_document = \<lparr>doc_index = ''articles'', doc_model = post, doc_queryset = [1, 2, 3]\<rparr>"

definition site :: registry where
  "site = \<lparr>get_models = [post, comment, product],
            get_indices = (\<lambda>ms. [''articles'']),
            get_documents = (\<lambda>ms. [post_document])\<rparr>"

definition noon :: datetime where
  "noon = \<lparr>year = 2020, month = 1, day = 2, hour = 12, minute = 0, second = 0\<rparr>"

definition new_year :: datetime where
  "new_year = \<lparr>year = 2020, month = 1, day = 1, hour = 0, minute = 0, second = 0\<rparr>"

text \<open>A world whose backend holds one generation of \<^verbatim>\<open>articles\<close>, which the alias points at.\<close>

definition live :: world where
  "live = \<lparr>backend = [(''articles-2020.01.01.00.00.00'', [''articles''])],
            trace = [], stdout = [], prompts = [], clock = (\<lambda>n. noon), clock_reads = 0\<rparr>"

text \<open>A world whose backend holds the index \<^verbatim>\<open>articles\<close> itself, as \<^verbatim>\<open>--create\<close> makes it.\<close>

definition plain :: world where
  "plain = \<lparr>backend = [(''articles'', [])],
             trace = [], stdout = [], prompts = [], clock = (\<lambda>n. noon), clock_reads = 0\<rparr>"

definition reindex_options :: options where
  "reindex_options = \<lparr>action = Some ''reindex'', models = None, force = False\<rparr>"

text \<open>A world with an empty backend: the alias has never been set up.\<close>

definition fresh :: world where
  "fresh = \<lparr>backend = [],
             trace = [], stdout = [], prompts = [], clock = (\<lambda>n. noon), clock_reads = 0\<rparr>"

text \<open>A world where the alias points at an index that is not named as a generation.\<close>

definition legacy :: world where
  "legacy = \<lparr>backend = [(''articles_v1'', [''articles''])],
              trace = [], stdout = [], prompts = [], clock = (\<lambda>n. noon), clock_reads = 0\<rparr>"

text \<open>
  A world with two earlier generations, the later of which the alias points at, and an
  index of another name.
\<close>

definition crowded :: world where
  "crowded = \<lparr>backend = [(''articles-2019.12.31.00.00.00'', []),
                          (''articles-2020.01.01.00.00.00'', [''articles'']),
                          (''authors'', [])],
               trace = [], stdout = [], prompts = [], clock = (\<lambda>n. noon), clock_reads = 0\<rparr>"

section \<open>Resolving the filter\<close>

text \<open>The inner loop keeps the models that pass its test and records whether one did.\<close>

lemma match_models_eq:
  "match_models arg ms (acc, found) =
     (acc @ filter (\<lambda>m. app_label m = arg \<or>
                       lower (app_label m) @ ''.'' @ lower (model_name m) = arg) ms,
      found \<or> (\<exists>m\<in>set ms. app_label m = arg \<or>
                   lower (app_label m) @ ''.'' @ lower (model_name m) = arg))"
  by (induction ms arbitrary: acc found) auto

lemma match_args_subset:
  "match_args reg as acc = Inr r \<Longrightarrow> set r \<subseteq> set acc \<union> set (get_models reg)"
proof (induction as arbitrary: acc)
  case Nil
  then show ?case by simp
next
  case (Cons a as)
  obtain acc' found where
    step: "match_models (lower a) (get_models reg) (acc, False) = (acc', found)"
    by (cases "match_models (lower a) (get_models reg) (acc, False)")
  then have sub: "set acc' \<subseteq> set acc \<union> set (get_models reg)"
    by (auto simp: match_models_eq)
  from Cons.prems have "match_args reg as acc' = Inr r"
    by (simp add: step Let_def split: if_splits)
  from Cons.IH [OF this] sub show ?case by auto
qed

text \<open>The outer loop raises exactly when some argument passes the test for no model.\<close>

lemma match_args_raises:
  "(\<exists>e. match_args reg as acc = Inl e) \<longleftrightarrow>
     (\<exists>a\<in>set as. \<forall>m\<in>set (get_models reg).
        \<not> (app_label m = lower a \<or>
           lower (app_label m) @ ''.'' @ lower (model_name m) = lower a))"
  by (induction as arbitrary: acc) (auto simp: match_models_eq Let_def)

lemma cmd_get_models_subset:
  assumes "cmd_get_models reg args = Inr S"
  shows "S \<subseteq> set (get_models reg)"
proof (cases "args = None \<or> args = Some []")
  case True
  with assms show ?thesis by (auto simp: cmd_get_models_def)
next
  case False
  then obtain b bs where args: "args = Some (b # bs)"
    by (cases args; cases "the args") auto
  from assms obtain r where r: "match_args reg (b # bs) [] = Inr r" and S: "S = set r"
    by (auto simp: cmd_get_models_def args split: sum.splits)
  from match_args_subset [OF r] S show ?thesis by auto
qed

lemma lower_char_idem: "lower_char (lower_char c) = lower_char c"
  by (simp add: lower_char_def)

lemma lower_idem: "lower (lower s) = lower s"
  by (simp add: lower_def lower_char_idem)

text \<open>A model that passes the test of the loop is matched up to case.\<close>

lemma loop_test_up_to_case:
  assumes "app_label m = lower a \<or>
           lower (app_label m) @ ''.'' @ lower (model_name m) = lower a"
  shows "spec_matches a m"
proof -
  from assms consider "lower (app_label m) = lower (lower a)"
    | "lower (app_label m) @ ''.'' @ lower (model_name m) = lower a"
    by auto
  then show ?thesis
    by cases (simp_all add: spec_matches_def lower_idem)
qed

text \<open>A filter element that matches no registered model up to case fails the resolution.\<close>

lemma unmatched_filter_fails:
  assumes "a \<in> set as" and "\<forall>m\<in>set (get_models reg). \<not> spec_matches a m"
  shows "\<exists>e. cmd_get_models reg (Some as) = Inl e"
proof -
  from assms(1) obtain b bs where as: "as = b # bs"
    by (cases as) auto
  from assms have "\<exists>e. match_args reg as [] = Inl e"
    unfolding match_args_raises using loop_test_up_to_case by blast
  then show ?thesis
    by (auto simp: cmd_get_models_def as)
qed

lemma handle_unknown_filter:
  assumes "action opts \<noteq> None" "action opts \<noteq> Some []"
    and "cmd_get_models reg (models opts) = Inl e"
  shows "handle reg opts response w = (Raise e, w)"
proof -
  from assms(1,2) have "\<not> (action opts = None \<or> action opts = Some [])"
    by blast
  then show ?thesis
    unfolding handle_def using assms(3) by (simp only: if_False Let_def sum.case)
qed

lemmas site_defs = site_def post_def comment_def product_def post_document_def
lemmas lower_defs = lower_def lower_char_def

text \<open>
  C3, at a registry whose app label is not lowercase. The filter \<^verbatim>\<open>shop\<close> equals the
  app label \<^verbatim>\<open>Shop\<close> up to case, so it matches a registered model and no element of the
  filter list matches zero models; the resolution fails all the same, and \<^verbatim>\<open>handle\<close>
  raises the error with the world as it was. The loop compares the lowercased argument
  with the label as it is. (The other direction holds: \<open>unmatched_filter_fails\<close>.)
\<close>

theorem matched_filter_fails_resolution:
  "spec_matches ''shop'' product \<and> product \<in> set (get_models site) \<and>
   cmd_get_models site (Some [''shop'']) = Inl (CommandError ''No model or app named shop'') \<and>
   handle site \<lparr>action = Some ''create'', models = Some [''shop''], force = False\<rparr> [] plain =
     (Raise (CommandError ''No model or app named shop''), plain)"
proof -
  have err: "cmd_get_models site (Some [''shop'']) =
      Inl (CommandError ''No model or app named shop'')"
    by (simp add: cmd_get_models_def site_defs lower_defs)
  have "handle site \<lparr>action = Some ''create'', models = Some [''shop''], force = False\<rparr> []
      plain = (Raise (CommandError ''No model or app named shop''), plain)"
    by (rule handle_unknown_filter) (simp_all add: err)
  moreover have "spec_matches ''shop'' product" and "product \<in> set (get_models site)"
    by (simp_all add: spec_matches_def site_defs lower_defs)
  ultimately show ?thesis
    using err by simp
qed

text \<open>
  C4, at a registry whose app label is not lowercase. The qualified form of the filter is
  compared with the lowercased label, the app form with the label as it is: the app
  \<^verbatim>\<open>Shop\<close> is found by \<^verbatim>\<open>SHOP.Product\<close>, and by none of \<^verbatim>\<open>shop\<close>, \<^verbatim>\<open>Shop\<close> and
  \<^verbatim>\<open>SHOP\<close>.
\<close>

theorem app_filter_compares_unlowered_label:
  "cmd_get_models site (Some [''SHOP.Product'']) = Inr {product} \<and>
   cmd_get_models site (Some [''shop'']) = Inl (CommandError ''No model or app named shop'') \<and>
   cmd_get_models site (Some [''Shop'']) = Inl (CommandError ''No model or app named shop'') \<and>
   cmd_get_models site (Some [''SHOP'']) = Inl (CommandError ''No model or app named shop'') \<and>
   cmd_get_models site (Some [''BLOG'']) = Inr {post, comment} \<and>
   cmd_get_models site (Some [''blo'']) = Inl (CommandError ''No model or app named blo'')"
  by (simp add: cmd_get_models_def site_defs lower_defs Let_def insert_commute)

text \<open>
  C5. The empty filter list, and no filter list at all, resolve to all registered models;
  whatever a filter list resolves to, in particular when that is not empty, is a subset of
  them.
\<close>

theorem resolved_models_are_registered:
  "cmd_get_models reg (Some []) = Inr (set (get_models reg)) \<and>
   cmd_get_models reg None = Inr (set (get_models reg)) \<and>
   (cmd_get_models reg F = Inr S \<and> S \<noteq> {} \<longrightarrow>
      (\<exists>A. cmd_get_models reg (Some []) = Inr A \<and> S \<subseteq> A))"
  using cmd_get_models_subset [of reg F S] by (simp add: cmd_get_models_def)

theorem resolved_models_are_registered_witness:
  "cmd_get_models site (Some [''blog.post'']) = Inr {post} \<and> {post} \<noteq> {} \<and>
   cmd_get_models site (Some []) = Inr {post, comment, product} \<and>
   {post} \<subseteq> {post, comment, product}"
proof -
  have one: "cmd_get_models site (Some [''blog.post'']) = Inr {post}"
    by (simp add: cmd_get_models_def site_defs lower_defs)
  have all: "cmd_get_models site (Some []) = Inr {post, comment, product}"
    by (simp add: cmd_get_models_def site_defs)
  have "\<exists>A. cmd_get_models site (Some []) = Inr A \<and> {post} \<subseteq> A"
    using resolved_models_are_registered [of site "Some [''blog.post'']" "{post}"] one
    by blast
  with one all show ?thesis
    by simp
qed

section \<open>Deleting and rebuilding\<close>

lemma filter_absent: "n \<notin> set (es_names s) \<Longrightarrow> filter (\<lambda>(m, as). m \<noteq> n) s = s"
  by (induction s) (auto simp: es_names_def)

lemma without_without: "without xs (without ys s) = without (ys @ xs) s"
  by (induction s) (auto simp: without_def)

lemma without_idem: "without xs (without xs s) = without xs s"
  by (induction s) (auto simp: without_def)

lemma names_without: "set (es_names (without xs s)) = set (es_names s) - set xs"
  by (induction s) (auto simp: without_def es_names_def)

text \<open>One round of the loop of \<^verbatim>\<open>_delete\<close>: present or not, the index is gone afterwards.\<close>

lemma delete_body_eq:
  "\<exists>w'. delete_body index w = (Return (), w') \<and>
     backend w' = without [index] (backend w) \<and>
     trace w' = trace w @ [(IndexDelete index, without [index] (backend w))] \<and>
     stdout w' = stdout w @ [''Deleting index '' @ quoted index] \<and>
     prompts w' = prompts w"
  by (simp add: delete_body_def seq_def stdout_write_def ignoring_def request_def es_delete_def
      without_def filter_absent)

lemma delete_loop:
  "\<exists>w'. for_each xs delete_body w = (Return (), w') \<and>
     backend w' = without xs (backend w) \<and>
     map fst (trace w') = map fst (trace w) @ map IndexDelete xs \<and>
     prompts w' = prompts w"
proof (induction xs arbitrary: w)
  case Nil
  show ?case by (simp add: without_def)
next
  case (Cons x xs)
  obtain w1 where w1: "delete_body x w = (Return (), w1)"
      "backend w1 = without [x] (backend w)"
      "trace w1 = trace w @ [(IndexDelete x, without [x] (backend w))]"
      "prompts w1 = prompts w"
    using delete_body_eq [of x w] by blast
  obtain w2 where w2: "for_each xs delete_body w1 = (Return (), w2)"
      "backend w2 = without xs (backend w1)"
      "map fst (trace w2) = map fst (trace w1) @ map IndexDelete xs"
      "prompts w2 = prompts w1"
    using Cons.IH [of w1] by blast
  show ?case
    by (simp add: w1 w2 without_without)
qed

lemma delete_indices_eq:
  "\<exists>w'. delete_indices reg ms w = (Return True, w') \<and>
     backend w' = without (get_indices reg ms) (backend w) \<and>
     map fst (trace w') = map fst (trace w) @ map IndexDelete (get_indices reg ms) \<and>
     prompts w' = prompts w"
  using delete_loop [of "get_indices reg ms" w]
  by (auto simp: delete_indices_def seq_def return_def)

text \<open>
  What \<^verbatim>\<open>_delete\<close> does: it returns whether it went ahead, it never raises, and it sends
  one delete request for each index when it went ahead and none otherwise.
\<close>

lemma cmd_delete_eq:
  "\<exists>w'. cmd_delete reg ms opts response w =
          (Return (force opts \<or> lower response = ''y''), w') \<and>
     backend w' =
       (if force opts \<or> lower response = ''y'' then without (get_indices reg ms) (backend w)
        else backend w) \<and>
     map fst (trace w') =
       map fst (trace w) @
       (if force opts \<or> lower response = ''y'' then map IndexDelete (get_indices reg ms)
        else []) \<and>
     prompts w' =
       (if force opts then prompts w
        else prompts w @ [delete_prompt (get_indices reg ms)])"
proof (cases "force opts \<or> lower response = ''y''")
  case True
  let ?w = "if force opts then w
            else w\<lparr>prompts := prompts w @ [delete_prompt (get_indices reg ms)]\<rparr>"
  have "cmd_delete reg ms opts response w = delete_indices reg ms ?w"
    using True by (auto simp: cmd_delete_def Let_def seq_def input_def)
  with delete_indices_eq [of reg ms ?w] True show ?thesis by auto
next
  case False
  then show ?thesis
    by (simp add: cmd_delete_def Let_def seq_def input_def stdout_write_def return_def)
qed

lemma lower_y: "lower r = ''y'' \<longleftrightarrow> r = ''y'' \<or> r = ''Y''"
  by (cases r) (auto simp: lower_defs split: if_splits)

lemmas action_defs = seq_def return_def stdout_write_def input_def request_def ignoring_def
  query_def timezone_now_def

text \<open>
  C6. An unforced delete whose confirmation is not affirmative returns \<^verbatim>\<open>False\<close>, a
  returned value and no exception, whereas a delete that goes ahead returns \<^verbatim>\<open>True\<close>.
  It has then sent no request to the backend (the trace is as before) and the backend is
  unchanged; all it did was to show the prompt and to write \<^verbatim>\<open>Aborted\<close>.
\<close>

theorem unconfirmed_delete_aborts:
  assumes "\<not> force opts" and "lower response \<noteq> ''y''"
  shows "cmd_delete reg ms opts response w =
           (Return False, w\<lparr>prompts := prompts w @ [delete_prompt (get_indices reg ms)],
                            stdout := stdout w @ [''Aborted'']\<rparr>) \<and>
         trace (snd (cmd_delete reg ms opts response w)) = trace w \<and>
         backend (snd (cmd_delete reg ms opts response w)) = backend w \<and>
         fst (cmd_delete reg ms (opts\<lparr>force := True\<rparr>) response w) = Return True"
proof -
  have abort: "cmd_delete reg ms opts response w =
      (Return False, w\<lparr>prompts := prompts w @ [delete_prompt (get_indices reg ms)],
                       stdout := stdout w @ [''Aborted'']\<rparr>)"
    using assms by (simp add: cmd_delete_def Let_def action_defs)
  have "fst (cmd_delete reg ms (opts\<lparr>force := True\<rparr>) response w) = Return True"
    using cmd_delete_eq [of reg ms "opts\<lparr>force := True\<rparr>" response w] by auto
  with abort show ?thesis by simp
qed

theorem unconfirmed_delete_aborts_witness:
  "cmd_delete site {post} \<lparr>action = Some ''delete'', models = None, force = False\<rparr> ''n'' plain =
     (Return False,
      plain\<lparr>prompts := [''Are you sure you want to delete the '' @ quoted ''articles'' @
                          '' indexes? [n/Y]: ''],
             stdout := [''Aborted'']\<rparr>) \<and>
   backend (snd (cmd_delete site {post}
     \<lparr>action = Some ''delete'', models = None, force = False\<rparr> ''n'' plain)) =
     [(''articles'', [])]"
proof -
  have n: "lower ''n'' \<noteq> ''y''"
    by (simp add: lower_defs)
  show ?thesis
    using unconfirmed_delete_aborts
      [of "\<lparr>action = Some ''delete'', models = None, force = False\<rparr>" "''n''" site "{post}" plain, OF _ n]
    by (simp add: plain_def delete_prompt_def site_def)
qed

text \<open>
  C7. Once a delete has gone ahead, none of its indices exists. A second delete of the same
  models, forced or not and whatever the answer, again returns a boolean and raises nothing:
  the backend answers each of its requests with a 404, which \<^verbatim>\<open>ignore=404\<close> takes for
  done. The backend after the second call is the backend before it. (The second call
  still writes its messages and sends its requests.)
\<close>

theorem delete_twice_is_delete_once:
  assumes "cmd_delete reg ms opts response w = (Return True, w1)"
  shows "\<exists>w2. cmd_delete reg ms opts' response' w1 =
                 (Return (force opts' \<or> lower response' = ''y''), w2) \<and>
               backend w2 = backend w1 \<and>
               set (get_indices reg ms) \<inter> set (es_names (backend w1)) = {}"
proof -
  from assms cmd_delete_eq [of reg ms opts response w]
  have w1: "backend w1 = without (get_indices reg ms) (backend w)"
    by (auto split: if_splits)
  obtain w2 where w2: "cmd_delete reg ms opts' response' w1 =
        (Return (force opts' \<or> lower response' = ''y''), w2)"
      "backend w2 =
        (if force opts' \<or> lower response' = ''y''
         then without (get_indices reg ms) (backend w1) else backend w1)"
    using cmd_delete_eq [of reg ms opts' response' w1] by blast
  have "backend w2 = backend w1"
    by (simp add: w2(2) w1 without_idem)
  moreover have "set (get_indices reg ms) \<inter> set (es_names (backend w1)) = {}"
    by (auto simp: w1 names_without)
  ultimately show ?thesis using w2(1) by blast
qed

theorem delete_twice_is_delete_once_witness:
  "(\<exists>w1. cmd_delete site {post} \<lparr>action = Some ''delete'', models = None, force = True\<rparr> [] plain =
          (Return True, w1) \<and> backend w1 = [] \<and>
     (\<exists>w2. cmd_delete site {post} \<lparr>action = Some ''delete'', models = None, force = True\<rparr> [] w1 =
          (Return True, w2) \<and> backend w2 = []))"
proof -
  let ?opts = "\<lparr>action = Some ''delete'', models = None, force = True\<rparr>"
  obtain w1 where w1: "cmd_delete site {post} ?opts [] plain = (Return True, w1)"
      "backend w1 = []"
    by (simp add: cmd_delete_def delete_indices_def delete_body_def es_delete_def es_names_def
        action_defs plain_def site_def)
  from delete_twice_is_delete_once [OF w1(1), of ?opts "[]"] w1(2)
  show ?thesis using w1 by auto
qed

text \<open>
  C10. An unforced delete goes ahead exactly when the answer, lowercased, is the one
  character \<^verbatim>\<open>y\<close>, that is when the answer is \<^verbatim>\<open>y\<close> or \<^verbatim>\<open>Y\<close>. Every other answer,
  \<^verbatim>\<open>yes\<close> among them, makes it return \<^verbatim>\<open>False\<close> with no request sent, although the
  prompt it has shown ends in \<^verbatim>\<open>[n/Y]: \<close>.
\<close>

theorem confirmation_accepts_only_y:
  assumes "\<not> force opts"
  shows "fst (cmd_delete reg ms opts response w) = Return (response = ''y'' \<or> response = ''Y'') \<and>
         (lower response = ''y'') = (response = ''y'' \<or> response = ''Y'') \<and>
         (if response = ''y'' \<or> response = ''Y''
          then map fst (trace (snd (cmd_delete reg ms opts response w))) =
                 map fst (trace w) @ map IndexDelete (get_indices reg ms)
          else trace (snd (cmd_delete reg ms opts response w)) = trace w \<and>
               backend (snd (cmd_delete reg ms opts response w)) = backend w) \<and>
         prompts (snd (cmd_delete reg ms opts response w)) =
           prompts w @ [delete_prompt (get_indices reg ms)] \<and>
         suffix ''[n/Y]: '' (delete_prompt (get_indices reg ms))"
proof -
  obtain w' where w': "cmd_delete reg ms opts response w = (Return (lower response = ''y''), w')"
      "map fst (trace w') =
         map fst (trace w) @
         (if lower response = ''y'' then map IndexDelete (get_indices reg ms) else [])"
      "prompts w' = prompts w @ [delete_prompt (get_indices reg ms)]"
    using cmd_delete_eq [of reg ms opts response w] assms by auto
  have abort: "lower response \<noteq> ''y'' \<Longrightarrow>
      trace (snd (cmd_delete reg ms opts response w)) = trace w \<and>
      backend (snd (cmd_delete reg ms opts response w)) = backend w"
    using assms by (simp add: cmd_delete_def Let_def action_defs)
  have "suffix ''[n/Y]: '' (delete_prompt (get_indices reg ms))"
    unfolding delete_prompt_def suffix_def by (intro exI) simp
  with w' abort show ?thesis
    by (simp add: lower_y)
qed

theorem confirmation_accepts_only_y_witness:
  "fst (cmd_delete site {post} \<lparr>action = Some ''delete'', models = None, force = False\<rparr>
          ''yes'' plain) = Return False \<and>
   backend (snd (cmd_delete site {post} \<lparr>action = Some ''delete'', models = None, force = False\<rparr>
          ''yes'' plain)) = [(''articles'', [])] \<and>
   fst (cmd_delete site {post} \<lparr>action = Some ''delete'', models = None, force = False\<rparr>
          ''Y'' plain) = Return True"
  using confirmation_accepts_only_y
    [of "\<lparr>action = Some ''delete'', models = None, force = False\<rparr>" site "{post}" "''yes''" plain]
    confirmation_accepts_only_y
    [of "\<lparr>action = Some ''delete'', models = None, force = False\<rparr>" site "{post}" "''Y''" plain]
  by (simp add: plain_def)

text \<open>The requests of a loop whose body sends one request and may raise.\<close>

lemma for_each_calls:
  assumes "\<And>x w. map fst (trace (snd (body x w))) = map fst (trace w) @ [c x]"
  shows "\<exists>k\<le>length xs.
           map fst (trace (snd (for_each xs body w))) = map fst (trace w) @ map c (take k xs) \<and>
           (fst (for_each xs body w) = Return () \<longrightarrow> k = length xs)"
proof (induction xs arbitrary: w)
  case Nil
  show ?case by simp
next
  case (Cons x xs)
  obtain r w1 where b: "body x w = (r, w1)"
    by (cases "body x w")
  with assms [of x w] have t1: "map fst (trace w1) = map fst (trace w) @ [c x]"
    by simp
  show ?case
  proof (cases r)
    case (Return u)
    obtain k where k: "k \<le> length xs"
        "map fst (trace (snd (for_each xs body w1))) = map fst (trace w1) @ map c (take k xs)"
        "fst (for_each xs body w1) = Return () \<longrightarrow> k = length xs"
      using Cons.IH [of w1] by blast
    have "for_each (x # xs) body w = for_each xs body w1"
      by (simp add: b Return)
    with k t1 show ?thesis
      by (intro exI [of _ "Suc k"]) simp
  next
    case (Raise e)
    have "for_each (x # xs) body w = (Raise e, w1)"
      by (simp add: b Raise)
    with t1 show ?thesis
      by (intro exI [of _ "Suc 0"]) simp
  qed
qed

lemma create_body_call:
  "map fst (trace (snd (create_body x w))) = map fst (trace w) @ [IndexCreate x]"
  by (simp add: create_body_def action_defs split: sum.splits)

lemma populate_body_call:
  "map fst (trace (snd (populate_body d w))) = map fst (trace w) @ [bulk_call d] \<and>
   fst (populate_body d w) = Return ()"
  by (simp add: populate_body_def bulk_call_def es_bulk_def Let_def action_defs)

lemma populate_returns: "fst (for_each ds populate_body w) = Return ()"
proof (induction ds arbitrary: w)
  case Nil
  show ?case by simp
next
  case (Cons d ds)
  obtain w1 where "populate_body d w = (Return (), w1)"
    using populate_body_call [of d w] by (cases "populate_body d w") auto
  with Cons.IH [of w1] show ?case by simp
qed

text \<open>
  C8. A rebuild whose delete is not confirmed stops there: it returns having sent no
  request, with the backend as it was. A rebuild that goes ahead sends its requests in
  three consecutive runs: a delete for every index, then creations in the order of the
  indices, then bulk writes in the order of the documents. A bulk write is only sent
  once every creation has been sent, and a rebuild that returns has sent all of them. (A
  creation the backend rejects raises, which ends the rebuild inside the second run.)
\<close>

theorem rebuild_is_sequential:
  "(\<not> force opts \<and> lower response \<noteq> ''y'' \<longrightarrow>
      fst (cmd_rebuild reg ms opts response w) = Return () \<and>
      trace (snd (cmd_rebuild reg ms opts response w)) = trace w \<and>
      backend (snd (cmd_rebuild reg ms opts response w)) = backend w) \<and>
   (force opts \<or> lower response = ''y'' \<longrightarrow>
      (\<exists>kc kp. kc \<le> length (get_indices reg ms) \<and> kp \<le> length (get_documents reg ms) \<and>
         map fst (trace (snd (cmd_rebuild reg ms opts response w))) =
           map fst (trace w) @ map IndexDelete (get_indices reg ms) @
           map IndexCreate (take kc (get_indices reg ms)) @
           map bulk_call (take kp (get_documents reg ms)) \<and>
         (0 < kp \<longrightarrow> kc = length (get_indices reg ms)) \<and>
         (fst (cmd_rebuild reg ms opts response w) = Return () \<longrightarrow>
            kc = length (get_indices reg ms) \<and> kp = length (get_documents reg ms))))"
proof (intro conjI impI)
  assume no: "\<not> force opts \<and> lower response \<noteq> ''y''"
  then have "cmd_rebuild reg ms opts response w =
      (Return (), w\<lparr>prompts := prompts w @ [delete_prompt (get_indices reg ms)],
                    stdout := stdout w @ [''Aborted'']\<rparr>)"
    by (simp add: cmd_rebuild_def cmd_delete_def Let_def action_defs)
  then show "fst (cmd_rebuild reg ms opts response w) = Return ()"
    and "trace (snd (cmd_rebuild reg ms opts response w)) = trace w"
    and "backend (snd (cmd_rebuild reg ms opts response w)) = backend w"
    by simp_all
next
  let ?idx = "get_indices reg ms" and ?docs = "get_documents reg ms"
  assume yes: "force opts \<or> lower response = ''y''"
  obtain w1 where w1: "cmd_delete reg ms opts response w = (Return True, w1)"
      "map fst (trace w1) = map fst (trace w) @ map IndexDelete ?idx"
    using cmd_delete_eq [of reg ms opts response w] yes by auto
  obtain r2 w2 where w2: "for_each ?idx create_body w1 = (r2, w2)"
    by (cases "for_each ?idx create_body w1")
  obtain kc where kc: "kc \<le> length ?idx"
      "map fst (trace w2) = map fst (trace w1) @ map IndexCreate (take kc ?idx)"
      "r2 = Return () \<longrightarrow> kc = length ?idx"
    using for_each_calls [of create_body IndexCreate ?idx w1, OF create_body_call] w2 by auto
  show "\<exists>kc kp. kc \<le> length ?idx \<and> kp \<le> length ?docs \<and>
         map fst (trace (snd (cmd_rebuild reg ms opts response w))) =
           map fst (trace w) @ map IndexDelete ?idx @
           map IndexCreate (take kc ?idx) @ map bulk_call (take kp ?docs) \<and>
         (0 < kp \<longrightarrow> kc = length ?idx) \<and>
         (fst (cmd_rebuild reg ms opts response w) = Return () \<longrightarrow>
            kc = length ?idx \<and> kp = length ?docs)"
  proof (cases r2)
    case (Raise e)
    have "cmd_rebuild reg ms opts response w = (Raise e, w2)"
      by (simp add: cmd_rebuild_def cmd_create_def seq_def w1 w2 Raise)
    with kc w1 show ?thesis
      by (intro exI [of _ kc] exI [of _ 0]) simp
  next
    case (Return u)
    obtain kp where kp: "kp \<le> length ?docs"
        "map fst (trace (snd (for_each ?docs populate_body w2))) =
           map fst (trace w2) @ map bulk_call (take kp ?docs)"
        "fst (for_each ?docs populate_body w2) = Return () \<longrightarrow> kp = length ?docs"
      using for_each_calls [of populate_body bulk_call ?docs w2] populate_body_call by blast
    have "cmd_rebuild reg ms opts response w = for_each ?docs populate_body w2"
      by (simp add: cmd_rebuild_def cmd_create_def cmd_populate_def seq_def w1 w2 Return)
    with kc kp w1 Return show ?thesis
      by (intro exI [of _ kc] exI [of _ kp]) simp
  qed
qed

theorem rebuild_is_sequential_witness:
  "trace (snd (cmd_rebuild site {post} \<lparr>action = Some ''rebuild'', models = None, force = False\<rparr>
          ''no'' plain)) = [] \<and>
   map fst (trace (snd (cmd_rebuild site {post}
          \<lparr>action = Some ''rebuild'', models = None, force = True\<rparr> [] plain))) =
     [IndexDelete ''articles'', IndexCreate ''articles'', Bulk ''articles'' [1, 2, 3]]"
proof -
  let ?ask = "\<lparr>action = Some ''rebuild'', models = None, force = False\<rparr>"
  let ?go = "\<lparr>action = Some ''rebuild'', models = None, force = True\<rparr>"
  have no: "lower ''no'' \<noteq> ''y''"
    by (simp add: lower_defs)
  have "trace (snd (cmd_rebuild site {post} ?ask ''no'' plain)) = trace plain"
    using rebuild_is_sequential [of ?ask "''no''" site "{post}" plain] no by simp
  moreover have "map fst (trace (snd (cmd_rebuild site {post} ?go [] plain))) =
      [IndexDelete ''articles'', IndexCreate ''articles'', Bulk ''articles'' [1, 2, 3]]"
    by (simp add: cmd_rebuild_def cmd_delete_def delete_indices_def delete_body_def
        cmd_create_def create_body_def cmd_populate_def populate_body_def
        es_delete_def es_create_def es_bulk_def es_exists_def es_names_def
        alias_targets_def Let_def action_defs plain_def site_def post_document_def)
  ultimately show ?thesis
    by (simp add: plain_def)
qed

section \<open>Generation names\<close>

lemma two_digits:
  fixes a b c d k :: nat
  assumes "b < k" "d < k"
  shows "(k * a + b < k * c + d) = (a < c \<or> a = c \<and> b < d)"
proof (cases a c rule: linorder_cases)
  case less
  then have "Suc a \<le> c" by simp
  then have "k * Suc a \<le> k * c" by (rule mult_le_mono2)
  with assms less show ?thesis by simp
next
  case equal
  then show ?thesis by simp
next
  case greater
  then have "Suc c \<le> a" by simp
  then have "k * Suc c \<le> k * a" by (rule mult_le_mono2)
  with assms greater show ?thesis by simp
qed

lemma two_digits_eq:
  fixes a b c d k :: nat
  assumes "b < k" "d < k"
  shows "(k * a + b = k * c + d) = (a = c \<and> b = d)"
  using two_digits [OF assms, of a c] two_digits [OF assms(2,1), of c a]
  by (cases a c rule: linorder_cases) auto

lemma digit_cases:
  "d < 10 \<Longrightarrow> d = 0 \<or> d = 1 \<or> d = 2 \<or> d = 3 \<or> d = 4 \<or> d = 5 \<or> d = 6 \<or> d = 7 \<or> d = 8 \<or> d = (9::nat)"
  by arith

lemma digit_char_inj:
  assumes "a < 10" "b < 10"
  shows "(digit_char a < digit_char b) = (a < b) \<and> (digit_char a = digit_char b) = (a = b)"
  using digit_cases [OF assms(1)] digit_cases [OF assms(2)]
  by (elim disjE) (simp_all add: digit_char_def)

lemma str_nat_digit: "n < 10 \<Longrightarrow> str_nat n = [digit_char n]"
  by (simp add: str_nat.simps)

lemma str_nat_snoc: "10 \<le> n \<Longrightarrow> str_nat n = str_nat (n div 10) @ [digit_char (n mod 10)]"
  by (subst str_nat.simps) simp

lemma zfill_snoc: "zfill (Suc w) (s @ [c]) = zfill w s @ [c]"
  by (simp add: zfill_def)

lemma digit_char_0: "digit_char 0 = CHR ''0''"
  by (simp add: digit_char_def)

text \<open>A padded number is the padded number without its last digit, and that digit.\<close>

lemma pad_Suc:
  assumes "0 < w"
  shows "zfill (Suc w) (str_nat n) = zfill w (str_nat (n div 10)) @ [digit_char (n mod 10)]"
proof (cases "n < 10")
  case True
  have "replicate (w - Suc 0) CHR ''0'' @ ''0'' = replicate w CHR ''0''"
    using assms by (cases w) (simp_all add: replicate_append_same)
  with True show ?thesis
    by (simp add: str_nat_digit zfill_def digit_char_0)
next
  case False
  then show ?thesis
    by (simp add: str_nat_snoc zfill_snoc)
qed

lemma snoc_less:
  fixes xs ys :: "'a::linorder list"
  assumes "length xs = length ys"
  shows "(xs @ [a] < ys @ [b]) = (xs < ys \<or> xs = ys \<and> a < b)"
  using assms by (induction xs ys rule: list_induct2) auto

lemma append_less:
  fixes xs ys :: "'a::linorder list"
  assumes "length xs = length ys"
  shows "(xs @ us < ys @ vs) = (xs < ys \<or> xs = ys \<and> us < vs)"
  using assms by (induction xs ys rule: list_induct2) auto

lemma pad_order:
  assumes "n < 10 ^ Suc w" "m < 10 ^ Suc w"
  shows "length (zfill (Suc w) (str_nat n)) = Suc w \<and>
         (zfill (Suc w) (str_nat n) < zfill (Suc w) (str_nat m)) = (n < m) \<and>
         (zfill (Suc w) (str_nat n) = zfill (Suc w) (str_nat m)) = (n = m)"
  using assms
proof (induction w arbitrary: n m)
  case 0
  then show ?case
    using digit_char_inj [of n m] by (simp add: str_nat_digit zfill_def)
next
  case (Suc w)
  let ?p = "\<lambda>k. zfill (Suc w) (str_nat (k div 10))"
  have small: "n div 10 < 10 ^ Suc w" "m div 10 < 10 ^ Suc w"
    using Suc.prems by (simp_all add: less_mult_imp_div_less)
  note IH = Suc.IH [OF small] Suc.IH [OF small(1) small(1)] Suc.IH [OF small(2) small(2)]
  have len: "length (?p n) = length (?p m)"
    using IH by simp
  have n: "n = 10 * (n div 10) + n mod 10" and m: "m = 10 * (m div 10) + m mod 10"
    by simp_all
  have less: "(n < m) = (n div 10 < m div 10 \<or> n div 10 = m div 10 \<and> n mod 10 < m mod 10)"
    by (subst n, subst m, rule two_digits) simp_all
  have eq: "(n = m) = (n div 10 = m div 10 \<and> n mod 10 = m mod 10)"
    by (subst n, subst m, rule two_digits_eq) simp_all
  have d: "(digit_char (n mod 10) < digit_char (m mod 10)) = (n mod 10 < m mod 10)"
      "(digit_char (n mod 10) = digit_char (m mod 10)) = (n mod 10 = m mod 10)"
    using digit_char_inj [of "n mod 10" "m mod 10"] by simp_all
  show ?case
    using IH(1) by (simp add: pad_Suc snoc_less [OF len] less eq d)
qed


lemma pad2_order:
  assumes "n < 100" "m < 100"
  shows "length (zfill 2 (str_nat n)) = 2 \<and>
         (zfill 2 (str_nat n) < zfill 2 (str_nat m)) = (n < m) \<and>
         (zfill 2 (str_nat n) = zfill 2 (str_nat m)) = (n = m)"
proof -
  have "(10::nat) ^ Suc 1 = 100"
    by simp
  with pad_order [of n 1 m] assms show ?thesis
    by (simp add: numeral_2_eq_2)
qed

lemma pad4_order:
  assumes "n < 10000" "m < 10000"
  shows "length (zfill 4 (str_nat n)) = 4 \<and>
         (zfill 4 (str_nat n) < zfill 4 (str_nat m)) = (n < m) \<and>
         (zfill 4 (str_nat n) = zfill 4 (str_nat m)) = (n = m)"
proof -
  have "Suc 3 = 4" and "(10::nat) ^ Suc 3 = 10000"
    by simp_all
  with pad_order [of n 3 m] assms show ?thesis
    by simp
qed

lemma pad2:
  assumes "n < 100"
  shows "zfill 2 (str_nat n) = [digit_char (n div 10), digit_char (n mod 10)]"
proof -
  have "zfill (Suc 1) (str_nat n) = zfill 1 (str_nat (n div 10)) @ [digit_char (n mod 10)]"
    by (rule pad_Suc) simp
  moreover have "n div 10 < 10"
    using assms by simp
  then have "zfill 1 (str_nat (n div 10)) = [digit_char (n div 10)]"
    by (simp add: str_nat_digit zfill_def)
  ultimately show ?thesis
    by (simp add: numeral_2_eq_2)
qed

lemma pad4:
  assumes "n < 10000"
  shows "zfill 4 (str_nat n) =
           [digit_char (n div 1000), digit_char (n div 100 mod 10),
            digit_char (n div 10 mod 10), digit_char (n mod 10)]"
proof -
  have a: "zfill (Suc 3) (str_nat n) = zfill 3 (str_nat (n div 10)) @ [digit_char (n mod 10)]"
    by (rule pad_Suc) simp
  have b: "zfill (Suc 2) (str_nat (n div 10)) =
      zfill 2 (str_nat (n div 10 div 10)) @ [digit_char (n div 10 mod 10)]"
    by (rule pad_Suc) simp
  have c: "n div 10 div 10 = n div 100" "n div 100 div 10 = n div 1000"
    by (simp_all add: div_mult2_eq [symmetric])
  have "n div 100 < 100"
    using assms by simp
  note d = pad2 [OF this]
  have "Suc 3 = 4" "Suc 2 = 3"
    by simp_all
  with a b c d show ?thesis
    by simp
qed

lemma field_order:
  fixes xs ys :: string
  assumes "length xs = length ys"
  shows "(xs @ ''.'' @ us < ys @ ''.'' @ vs) = (xs < ys \<or> xs = ys \<and> us < vs)"
    and "(xs @ ''.'' @ us = ys @ ''.'' @ vs) = (xs = ys \<and> us = vs)"
  using assms by (simp_all add: append_less)

lemma strftime_order:
  assumes "clock_datetime t" "clock_datetime t'"
  shows "(strftime t < strftime t') = earlier t t'"
    and "(strftime t = strftime t') = (stamp_fields t = stamp_fields t')"
proof -
  note y = pad4_order [of "year t" "year t'"]
    and mo = pad2_order [of "month t" "month t'"]
    and d = pad2_order [of "day t" "day t'"]
    and h = pad2_order [of "hour t" "hour t'"]
    and mi = pad2_order [of "minute t" "minute t'"]
    and s = pad2_order [of "second t" "second t'"]
  have b: "year t < 10000" "year t' < 10000" "month t < 100" "month t' < 100"
      "day t < 100" "day t' < 100" "hour t < 100" "hour t' < 100"
      "minute t < 100" "minute t' < 100" "second t < 100" "second t' < 100"
    using assms by (simp_all add: clock_datetime_def)
  have len: "length (zfill 4 (str_nat (year t))) = length (zfill 4 (str_nat (year t')))"
      "length (zfill 2 (str_nat (month t))) = length (zfill 2 (str_nat (month t')))"
      "length (zfill 2 (str_nat (day t))) = length (zfill 2 (str_nat (day t')))"
      "length (zfill 2 (str_nat (hour t))) = length (zfill 2 (str_nat (hour t')))"
      "length (zfill 2 (str_nat (minute t))) = length (zfill 2 (str_nat (minute t')))"
    using b pad4_order [of "year t" "year t"] pad4_order [of "year t'" "year t'"]
      pad2_order [of "month t" "month t"] pad2_order [of "month t'" "month t'"]
      pad2_order [of "day t" "day t"] pad2_order [of "day t'" "day t'"]
      pad2_order [of "hour t" "hour t"] pad2_order [of "hour t'" "hour t'"]
      pad2_order [of "minute t" "minute t"] pad2_order [of "minute t'" "minute t'"]
    by simp_all
  show "(strftime t < strftime t') = earlier t t'"
    unfolding strftime_def earlier_def stamp_fields_def
    using b y mo d h mi s
    by (simp only: field_order [OF len(1)] field_order [OF len(2)] field_order [OF len(3)]
        field_order [OF len(4)] field_order [OF len(5)] Cons_less_Cons) simp
  show "(strftime t = strftime t') = (stamp_fields t = stamp_fields t')"
    unfolding strftime_def stamp_fields_def
    using b y mo d h mi s
    by (simp only: field_order [OF len(1)] field_order [OF len(2)] field_order [OF len(3)]
        field_order [OF len(4)] field_order [OF len(5)]) simp
qed


lemma strftime_layout:
  assumes "clock_datetime t"
  shows "strftime t =
     [digit_char (year t div 1000), digit_char (year t div 100 mod 10),
      digit_char (year t div 10 mod 10), digit_char (year t mod 10), CHR ''.'',
      digit_char (month t div 10), digit_char (month t mod 10), CHR ''.'',
      digit_char (day t div 10), digit_char (day t mod 10), CHR ''.'',
      digit_char (hour t div 10), digit_char (hour t mod 10), CHR ''.'',
      digit_char (minute t div 10), digit_char (minute t mod 10), CHR ''.'',
      digit_char (second t div 10), digit_char (second t mod 10)]"
proof -
  have "year t < 10000" "month t < 100" "day t < 100" "hour t < 100" "minute t < 100"
      "second t < 100"
    using assms by (simp_all add: clock_datetime_def)
  then show ?thesis
    by (simp add: strftime_def pad2 pad4)
qed

lemma strftime_new_year: "strftime new_year = ''2020.01.01.00.00.00''"
  by (simp add: strftime_def new_year_def pad2 pad4 digit_char_def)

lemma strftime_noon: "strftime noon = ''2020.01.02.12.00.00''"
  by (simp add: strftime_def noon_def pad2 pad4 digit_char_def)

lemma cmd_next_index_name_eq:
  "cmd_next_index_name name w =
     (Return (generation_name name (clock w (clock_reads w))),
      w\<lparr>clock_reads := Suc (clock_reads w)\<rparr>)"
  by (simp add: cmd_next_index_name_def seq_def timezone_now_def return_def)

text \<open>
  C9. The new index name is the alias, a hyphen and the time read from the clock, printed
  as four digits of the year and two digits each of month, day, hour, minute and second,
  with dots between them. Two names of one alias are in lexicographic order exactly when
  their times are in the order of time, and are equal exactly when the times agree to the
  second.
\<close>

theorem generation_names_sort_by_time:
  assumes "clock_datetime t" and "clock_datetime t'"
  shows "fst (cmd_next_index_name name w) =
           Return (name @ ''-'' @ strftime (clock w (clock_reads w))) \<and>
         generation_name name t = name @ ''-'' @
           [digit_char (year t div 1000), digit_char (year t div 100 mod 10),
            digit_char (year t div 10 mod 10), digit_char (year t mod 10), CHR ''.'',
            digit_char (month t div 10), digit_char (month t mod 10), CHR ''.'',
            digit_char (day t div 10), digit_char (day t mod 10), CHR ''.'',
            digit_char (hour t div 10), digit_char (hour t mod 10), CHR ''.'',
            digit_char (minute t div 10), digit_char (minute t mod 10), CHR ''.'',
            digit_char (second t div 10), digit_char (second t mod 10)] \<and>
         (generation_name name t < generation_name name t') = earlier t t' \<and>
         (generation_name name t = generation_name name t') = (stamp_fields t = stamp_fields t')"
proof -
  have "(name @ ''-'' @ strftime t < name @ ''-'' @ strftime t') = (strftime t < strftime t')"
    using append_less [of "name @ ''-''" "name @ ''-''" "strftime t" "strftime t'"] by simp
  with strftime_order [OF assms] strftime_layout [OF assms(1)] show ?thesis
    by (simp add: cmd_next_index_name_eq generation_name_def)
qed

theorem generation_names_sort_by_time_witness:
  "clock_datetime new_year \<and> clock_datetime noon \<and>
   generation_name ''articles'' new_year = ''articles-2020.01.01.00.00.00'' \<and>
   generation_name ''articles'' noon = ''articles-2020.01.02.12.00.00'' \<and>
   generation_name ''articles'' new_year < generation_name ''articles'' noon \<and>
   earlier new_year noon"
proof -
  have v: "clock_datetime new_year" "clock_datetime noon"
    by (simp_all add: clock_datetime_def new_year_def noon_def)
  have e: "earlier new_year noon"
    by (simp add: earlier_def stamp_fields_def new_year_def noon_def)
  have less: "generation_name ''articles'' new_year < generation_name ''articles'' noon"
    using generation_names_sort_by_time [OF v, of "''articles''" live] e by blast
  have names: "generation_name ''articles'' new_year = ''articles-2020.01.01.00.00.00''"
      "generation_name ''articles'' noon = ''articles-2020.01.02.12.00.00''"
    by (simp_all add: generation_name_def strftime_new_year strftime_noon)
  show ?thesis
    by (intro conjI) (rule v e less names)+
qed

section \<open>Reindexing\<close>

lemma digit_char_not_star: "digit_char d \<noteq> CHR ''*''"
  using digit_cases [of "d mod 10"] by (auto simp: digit_char_def)

lemma last_str_nat: "str_nat n \<noteq> [] \<and> last (str_nat n) = digit_char (n mod 10)"
  by (cases "n < 10") (simp_all add: str_nat_digit str_nat_snoc)

lemma generation_name_plain: "\<not> is_wildcard (generation_name a t)"
  using last_str_nat [of "second t"]
  by (simp add: is_wildcard_def generation_name_def strftime_def zfill_def digit_char_not_star)

lemma matches_generation_name [simp]:
  "expr_matches (generation_name a t) m = (generation_name a t = m)"
  by (simp add: expr_matches_def generation_name_plain)

lemma matches_pattern [simp]: "expr_matches (a @ ''-*'') m = prefix (a @ ''-'') m"
  by (simp add: expr_matches_def is_wildcard_def butlast_append)

lemma is_wildcard_pattern [simp]: "is_wildcard (a @ ''-*'')"
  by (simp add: is_wildcard_def)

lemma generation_name_matches [simp]: "prefix (a @ ''-'') (generation_name a t)"
  by (simp add: generation_name_def)

lemma names_add_alias [simp]: "es_names (add_alias a e s) = es_names s"
  by (induction s) (auto simp: add_alias_def es_names_def)

lemma names_remove_alias [simp]: "es_names (remove_alias a e s) = es_names s"
  by (induction s) (auto simp: remove_alias_def es_names_def)

lemma targets_create [simp]: "alias_targets a (s @ [(n, [])]) = alias_targets a s"
  by (simp add: alias_targets_def)

lemma targets_add_alias_list:
  "alias_targets a (add_alias a e s) =
     map fst (filter (\<lambda>(m, as). a \<in> set as \<or> expr_matches e m) s)"
  by (induction s) (auto simp: alias_targets_def add_alias_def split: if_splits)

lemma targets_add_alias:
  "set (alias_targets a (add_alias a e s)) =
     set (alias_targets a s) \<union> {m \<in> set (es_names s). expr_matches e m}"
  unfolding targets_add_alias_list by (auto simp: alias_targets_def es_names_def)

lemma targets_remove_alias_list:
  "alias_targets a (remove_alias a e s) =
     filter (\<lambda>m. \<not> expr_matches e m) (alias_targets a s)"
  by (induction s) (auto simp: alias_targets_def remove_alias_def split: if_splits)

lemma targets_remove_alias:
  "set (alias_targets a (remove_alias a e s)) =
     {m \<in> set (alias_targets a s). \<not> expr_matches e m}"
  by (simp add: targets_remove_alias_list)

lemma targets_without:
  "set (alias_targets a (without xs s)) = set (alias_targets a s) - set xs"
  by (induction s) (auto simp: alias_targets_def without_def)

lemma delete_old_loop:
  assumes "distinct xs" "set xs \<subseteq> set (es_names (backend w))"
  shows "\<exists>w'. for_each xs (\<lambda>x. request (IndexDelete x) (es_delete x)) w = (Return (), w') \<and>
           backend w' = without xs (backend w) \<and>
           trace w' = trace w @ delete_events xs (backend w)"
  using assms
proof (induction xs arbitrary: w)
  case Nil
  show ?case by (simp add: without_def)
next
  case (Cons x xs)
  let ?w1 = "w\<lparr>backend := without [x] (backend w),
               trace := trace w @ [(IndexDelete x, without [x] (backend w))]\<rparr>"
  have step: "request (IndexDelete x) (es_delete x) w = (Return (), ?w1)"
    using Cons.prems by (simp add: request_def es_delete_def without_def)
  have "distinct xs" "set xs \<subseteq> set (es_names (backend ?w1))"
    using Cons.prems by (auto simp: names_without)
  from Cons.IH [OF this] obtain w' where
    w': "for_each xs (\<lambda>x. request (IndexDelete x) (es_delete x)) ?w1 = (Return (), w')"
      "backend w' = without xs (backend ?w1)"
      "trace w' = trace ?w1 @ delete_events xs (backend ?w1)"
    by blast
  show ?case
    by (simp add: step w' without_without)
qed

lemma delete_events_states:
  "(c, s) \<in> set (delete_events xs s0) \<Longrightarrow> \<exists>ys. set ys \<subseteq> set xs \<and> s = without ys s0 \<and> is_delete c"
proof (induction xs arbitrary: s0)
  case Nil
  then show ?case by simp
next
  case (Cons x xs)
  from Cons.prems consider "c = IndexDelete x" "s = without [x] s0"
    | "(c, s) \<in> set (delete_events xs (without [x] s0))"
    by auto
  then show ?case
  proof cases
    case 1
    then show ?thesis by (intro exI [of _ "[x]"]) simp
  next
    case 2
    from Cons.IH [OF this] obtain ys where "set ys \<subseteq> set xs" "s = without ys (without [x] s0)"
        "is_delete c"
      by blast
    then show ?thesis
      by (intro exI [of _ "x # ys"]) (auto simp: without_without)
  qed
qed

lemma delete_events_calls: "map fst (delete_events xs s) = map IndexDelete xs"
  by (induction xs arbitrary: s) simp_all


text \<open>The run of the loop body when the new name is free.\<close>

lemma reindex_doc_created:
  assumes free: "generation_name (doc_index doc) (clock w (clock_reads w)) \<notin> set (es_names (backend w))"
  shows
    "let a = doc_index doc; qs = doc_queryset doc;
         nx = generation_name a (clock w (clock_reads w));
         s1 = backend w @ [(nx, [])];
         s4 = add_alias a nx s1;
         s5 = add_alias a nx (remove_alias a (a @ ''-*'') s4);
         old = filter (\<lambda>i. i \<noteq> nx) (remdups (resolve (a @ ''-*'') s5))
     in \<exists>w'. reindex_doc doc w = (Return (), w') \<and>
          backend w' = without old s5 \<and>
          trace w' = trace w @
            [(IndexCreate nx, s1), (Bulk nx qs, s1), (Refresh nx, s1), (PutAlias nx a, s4),
             (UpdateAliases [Remove a (a @ ''-*''), Add a nx], s5),
             (GetIndices (a @ ''-*''), s5)] @ delete_events old s5"
proof -
  let ?a = "doc_index doc" and ?qs = "doc_queryset doc"
  let ?nx = "generation_name ?a (clock w (clock_reads w))"
  let ?s1 = "backend w @ [(?nx, [])]"
  let ?s4 = "add_alias ?a ?nx ?s1"
  let ?s5 = "add_alias ?a ?nx (remove_alias ?a (?a @ ''-*'') ?s4)"
  let ?old = "filter (\<lambda>i. i \<noteq> ?nx) (remdups (resolve (?a @ ''-*'') ?s5))"
  let ?acts = "[Remove ?a (?a @ ''-*''), Add ?a ?nx]"
  let ?w5 = "w\<lparr>clock_reads := Suc (clock_reads w),
      stdout := stdout w @
        [''Creating index '' @ quoted ?nx,
         ''Indexing '' @ str_nat (length ?qs) @ '' '' @
            quoted (object_name (doc_model doc)) @ '' objects'',
         ''Updating alias '' @ quoted ?a @ '' -> '' @ quoted ?nx],
      backend := ?s5,
      trace := trace w @
        [(IndexCreate ?nx, ?s1), (Bulk ?nx ?qs, ?s1), (Refresh ?nx, ?s1), (PutAlias ?nx ?a, ?s4),
         (UpdateAliases ?acts, ?s5), (GetIndices (?a @ ''-*''), ?s5)]\<rparr>"
  have c: "es_create ?nx (backend w) = Inr ?s1"
    using free by (simp add: es_create_def)
  have there: "?nx \<in> set (es_names ?s1)"
    by (simp add: es_names_def)
  then have b: "es_bulk ?nx ?qs ?s1 = Inr ?s1" and r: "es_refresh ?nx ?s1 = Inr ?s1"
    by (simp_all add: es_bulk_def es_refresh_def es_exists_def)
  have p: "es_put_alias ?nx ?a ?s1 = Inr ?s4"
    using there by (auto simp: es_put_alias_def resolve_def filter_empty_conv)
  have "?nx \<in> set (es_names (remove_alias ?a (?a @ ''-*'') ?s4))"
    using there by simp
  then have u: "es_update_aliases ?acts ?s4 = Inr ?s5"
    by (auto simp: resolve_def filter_empty_conv)
  have g: "es_get (?a @ ''-*'') ?s5 = Inr (remdups (resolve (?a @ ''-*'') ?s5))"
    by (simp add: es_get_def)
  have run: "reindex_doc doc w =
      for_each ?old (\<lambda>old_index. request (IndexDelete old_index) (es_delete old_index)) ?w5"
    unfolding reindex_doc_def Let_def
    by (simp add: cmd_next_index_name_eq action_defs c b r p u g del: es_update_aliases.simps)
  have "distinct ?old" "set ?old \<subseteq> set (es_names (backend ?w5))"
    by (auto simp: resolve_def)
  from delete_old_loop [OF this] obtain w' where
    w': "for_each ?old (\<lambda>x. request (IndexDelete x) (es_delete x)) ?w5 = (Return (), w')"
      "backend w' = without ?old (backend ?w5)"
      "trace w' = trace ?w5 @ delete_events ?old (backend ?w5)"
    by blast
  have 1: "reindex_doc doc w = (Return (), w')"
    using run w'(1) by (simp only:)
  have 2: "backend w' = without ?old ?s5"
    using w'(2) by simp
  have 3: "trace w' = trace w @
      [(IndexCreate ?nx, ?s1), (Bulk ?nx ?qs, ?s1), (Refresh ?nx, ?s1), (PutAlias ?nx ?a, ?s4),
       (UpdateAliases ?acts, ?s5), (GetIndices (?a @ ''-*''), ?s5)] @ delete_events ?old ?s5"
    using w'(3) by simp
  show ?thesis
    unfolding Let_def by (intro exI [of _ w'] conjI) (fact 1 2 3)+
qed

lemma reindex_doc_taken:
  assumes "generation_name (doc_index doc) (clock w (clock_reads w)) \<in> set (es_names (backend w))"
  shows "reindex_doc doc w =
    (Raise (BackendError 400),
     w\<lparr>clock_reads := Suc (clock_reads w),
       trace := trace w @
         [(IndexCreate (generation_name (doc_index doc) (clock w (clock_reads w))), backend w)]\<rparr>)"
  unfolding reindex_doc_def Let_def using assms
  by (simp add: cmd_next_index_name_eq action_defs es_create_def)


lemmas backend_defs = es_create_def es_delete_def es_bulk_def es_refresh_def es_put_alias_def
  es_get_def es_exists_def es_names_def alias_targets_def resolve_def add_alias_def
  remove_alias_def expr_matches_def is_wildcard_def

lemma filter_delete_calls: "filter is_delete (map IndexDelete xs) = map IndexDelete xs"
  by (induction xs) simp_all

text \<open>
  C1, as the code has it. The loop body first adds the alias to the new generation with a
  request of its own (\<^verbatim>\<open>put_alias\<close>), and only then sends the combined
  \<^verbatim>\<open>update_aliases\<close> request. So the claim that the alias is never on more than one
  index does not hold: between the two requests it is on the indices it was on before and
  on the new generation. What holds is this. An alias that is on some index before the
  body runs is on some index in every state an observer can see during the run, whether
  the run completes or not. A run that completes has sent, in this order, the creation,
  the bulk write, the refresh, the \<^verbatim>\<open>put_alias\<close>, one \<^verbatim>\<open>update_aliases\<close> request with
  the two actions (remove the alias from the indices matching \<^verbatim>\<open>alias-*\<close>, add it to
  the new generation), the listing and then deletions only. After the \<^verbatim>\<open>put_alias\<close> the
  alias is on its former indices and the new generation; after the \<^verbatim>\<open>update_aliases\<close>
  it is on the new generation and on those of its former indices that do not match
  \<^verbatim>\<open>alias-*\<close>.
\<close>

theorem alias_never_unset_during_reindex:
  "let a = doc_index doc; nx = generation_name a (clock w (clock_reads w));
       events = new_events w (snd (reindex_doc doc w))
   in (alias_targets a (backend w) \<noteq> [] \<longrightarrow>
         (\<forall>(c, s) \<in> set events. alias_targets a s \<noteq> [])) \<and>
      (fst (reindex_doc doc w) = Return () \<longrightarrow>
         (\<exists>s1 s4 s5 dels.
            events =
              [(IndexCreate nx, s1), (Bulk nx (doc_queryset doc), s1), (Refresh nx, s1),
               (PutAlias nx a, s4),
               (UpdateAliases [Remove a (a @ ''-*''), Add a nx], s5),
               (GetIndices (a @ ''-*''), s5)] @ dels \<and>
            (\<forall>(c, s) \<in> set dels. is_delete c) \<and>
            set (alias_targets a s4) = set (alias_targets a (backend w)) \<union> {nx} \<and>
            set (alias_targets a s5) =
              {i \<in> set (alias_targets a (backend w)). \<not> prefix (a @ ''-'') i} \<union> {nx}))"
proof -
  let ?a = "doc_index doc"
  let ?nx = "generation_name ?a (clock w (clock_reads w))"
  let ?s1 = "backend w @ [(?nx, [])]"
  let ?s4 = "add_alias ?a ?nx ?s1"
  let ?s5 = "add_alias ?a ?nx (remove_alias ?a (?a @ ''-*'') ?s4)"
  let ?old = "filter (\<lambda>i. i \<noteq> ?nx) (remdups (resolve (?a @ ''-*'') ?s5))"
  show ?thesis
  proof (cases "?nx \<in> set (es_names (backend w))")
    case True
    note run = reindex_doc_taken [OF True]
    have ev: "new_events w (snd (reindex_doc doc w)) = [(IndexCreate ?nx, backend w)]"
      by (simp add: run new_events_def)
    show ?thesis
      unfolding Let_def ev by (simp add: run)
  next
    case False
    from reindex_doc_created [OF False] obtain w' where
      run: "reindex_doc doc w = (Return (), w')"
      and tr: "trace w' = trace w @
        [(IndexCreate ?nx, ?s1), (Bulk ?nx (doc_queryset doc), ?s1), (Refresh ?nx, ?s1),
         (PutAlias ?nx ?a, ?s4),
         (UpdateAliases [Remove ?a (?a @ ''-*''), Add ?a ?nx], ?s5),
         (GetIndices (?a @ ''-*''), ?s5)] @ delete_events ?old ?s5"
      unfolding Let_def by blast
    have ev: "new_events w (snd (reindex_doc doc w)) =
        [(IndexCreate ?nx, ?s1), (Bulk ?nx (doc_queryset doc), ?s1), (Refresh ?nx, ?s1),
         (PutAlias ?nx ?a, ?s4),
         (UpdateAliases [Remove ?a (?a @ ''-*''), Add ?a ?nx], ?s5),
         (GetIndices (?a @ ''-*''), ?s5)] @ delete_events ?old ?s5"
      by (simp add: run new_events_def tr)
    have names1: "set (es_names ?s1) = insert ?nx (set (es_names (backend w)))"
      by (simp add: es_names_def)
    have t4: "set (alias_targets ?a ?s4) = set (alias_targets ?a (backend w)) \<union> {?nx}"
      by (auto simp: targets_add_alias names1)
    have t5: "set (alias_targets ?a ?s5) =
        {i \<in> set (alias_targets ?a (backend w)). \<not> prefix (?a @ ''-'') i} \<union> {?nx}"
      by (auto simp: targets_add_alias targets_remove_alias names1)
    have dels: "is_delete c \<and> ?nx \<in> set (alias_targets ?a s)"
      if "(c, s) \<in> set (delete_events ?old ?s5)" for c s
    proof -
      from delete_events_states [OF that] obtain ys where
        ys: "set ys \<subseteq> set ?old" "s = without ys ?s5" "is_delete c"
        by blast
      then have "?nx \<notin> set ys"
        by auto
      with ys t5 show ?thesis
        by (simp add: targets_without)
    qed
    have n1: "alias_targets ?a ?s1 = alias_targets ?a (backend w)"
      by simp
    have n4: "alias_targets ?a ?s4 \<noteq> []" and n5: "alias_targets ?a ?s5 \<noteq> []"
      using t4 t5 by auto
    have nd: "alias_targets ?a s \<noteq> []" if "(c, s) \<in> set (delete_events ?old ?s5)" for c s
      using dels [OF that] by auto
    have first: "alias_targets ?a (backend w) \<noteq> [] \<longrightarrow>
        (\<forall>(c, s) \<in> set (new_events w (snd (reindex_doc doc w))). alias_targets ?a s \<noteq> [])"
      unfolding ev using n1 n4 n5 nd by auto
    have second: "\<exists>s1 s4 s5 dels.
        new_events w (snd (reindex_doc doc w)) =
          [(IndexCreate ?nx, s1), (Bulk ?nx (doc_queryset doc), s1), (Refresh ?nx, s1),
           (PutAlias ?nx ?a, s4),
           (UpdateAliases [Remove ?a (?a @ ''-*''), Add ?a ?nx], s5),
           (GetIndices (?a @ ''-*''), s5)] @ dels \<and>
        (\<forall>(c, s) \<in> set dels. is_delete c) \<and>
        set (alias_targets ?a s4) = set (alias_targets ?a (backend w)) \<union> {?nx} \<and>
        set (alias_targets ?a s5) =
          {i \<in> set (alias_targets ?a (backend w)). \<not> prefix (?a @ ''-'') i} \<union> {?nx}"
      using ev t4 t5 dels
      by (intro exI [of _ ?s1] exI [of _ ?s4] exI [of _ ?s5]
          exI [of _ "delete_events ?old ?s5"]) blast
    show ?thesis
      unfolding Let_def using first second by blast
  qed
qed


lemmas run_defs = reindex_doc_def Let_def cmd_next_index_name_eq generation_name_def strftime_noon
  action_defs backend_defs post_document_def

lemma handle_reindex:
  "handle site reindex_options r w =
     (case reindex_doc post_document w of
        (Return u, w') \<Rightarrow> (Return (), w')
      | (Raise e, w') \<Rightarrow> (Raise e, w'))"
  by (simp add: handle_def reindex_options_def cmd_get_models_def cmd_reindex_def site_def
      split: prod.splits outcome.splits)

lemma live_run:
  "fst (reindex_doc post_document live) = Return () \<and>
   backend (snd (reindex_doc post_document live)) =
     [(''articles-2020.01.02.12.00.00'', [''articles''])] \<and>
   trace (snd (reindex_doc post_document live)) =
     [(IndexCreate ''articles-2020.01.02.12.00.00'',
         [(''articles-2020.01.01.00.00.00'', [''articles'']),
          (''articles-2020.01.02.12.00.00'', [])]),
      (Bulk ''articles-2020.01.02.12.00.00'' [1, 2, 3],
         [(''articles-2020.01.01.00.00.00'', [''articles'']),
          (''articles-2020.01.02.12.00.00'', [])]),
      (Refresh ''articles-2020.01.02.12.00.00'',
         [(''articles-2020.01.01.00.00.00'', [''articles'']),
          (''articles-2020.01.02.12.00.00'', [])]),
      (PutAlias ''articles-2020.01.02.12.00.00'' ''articles'',
         [(''articles-2020.01.01.00.00.00'', [''articles'']),
          (''articles-2020.01.02.12.00.00'', [''articles''])]),
      (UpdateAliases [Remove ''articles'' ''articles-*'',
                      Add ''articles'' ''articles-2020.01.02.12.00.00''],
         [(''articles-2020.01.01.00.00.00'', []),
          (''articles-2020.01.02.12.00.00'', [''articles''])]),
      (GetIndices ''articles-*'',
         [(''articles-2020.01.01.00.00.00'', []),
          (''articles-2020.01.02.12.00.00'', [''articles''])]),
      (IndexDelete ''articles-2020.01.01.00.00.00'',
         [(''articles-2020.01.02.12.00.00'', [''articles''])])]"
  by (simp add: run_defs live_def without_def)

lemma legacy_run:
  "fst (reindex_doc post_document legacy) = Return () \<and>
   backend (snd (reindex_doc post_document legacy)) =
     [(''articles_v1'', [''articles'']), (''articles-2020.01.02.12.00.00'', [''articles''])]"
  by (simp add: run_defs legacy_def)

lemma fresh_run:
  "fst (reindex_doc post_document fresh) = Return () \<and>
   backend (snd (reindex_doc post_document fresh)) =
     [(''articles-2020.01.02.12.00.00'', [''articles''])]"
  by (simp add: run_defs fresh_def)

lemma crowded_run:
  "fst (reindex_doc post_document crowded) = Return () \<and>
   backend (snd (reindex_doc post_document crowded)) =
     [(''authors'', []), (''articles-2020.01.02.12.00.00'', [''articles''])] \<and>
   map fst (trace (snd (reindex_doc post_document crowded))) =
     [IndexCreate ''articles-2020.01.02.12.00.00'',
      Bulk ''articles-2020.01.02.12.00.00'' [1, 2, 3],
      Refresh ''articles-2020.01.02.12.00.00'',
      PutAlias ''articles-2020.01.02.12.00.00'' ''articles'',
      UpdateAliases [Remove ''articles'' ''articles-*'',
                     Add ''articles'' ''articles-2020.01.02.12.00.00''],
      GetIndices ''articles-*'',
      IndexDelete ''articles-2019.12.31.00.00.00'',
      IndexDelete ''articles-2020.01.01.00.00.00'']"
  by (simp add: run_defs crowded_def)


lemma targets_after_put:
  "set (alias_targets a (add_alias a (generation_name a t) (s @ [(generation_name a t, [])]))) =
     set (alias_targets a s) \<union> {generation_name a t}"
proof -
  have "set (es_names (s @ [(generation_name a t, [])])) = insert (generation_name a t) (set (es_names s))"
    by (simp add: es_names_def)
  then show ?thesis
    by (auto simp: targets_add_alias)
qed

lemma targets_after_update:
  "set (alias_targets a (add_alias a (generation_name a t) (remove_alias a (a @ ''-*'')
          (add_alias a (generation_name a t) (s @ [(generation_name a t, [])]))))) =
     {i \<in> set (alias_targets a s). \<not> prefix (a @ ''-'') i} \<union> {generation_name a t}"
proof -
  have "set (es_names (s @ [(generation_name a t, [])])) = insert (generation_name a t) (set (es_names s))"
    by (simp add: es_names_def)
  then show ?thesis
    by (auto simp: targets_add_alias targets_remove_alias)
qed

text \<open>
  C2, as the code has it. The body neither checks nor needs that the alias is on exactly
  one index before it runs, and it only removes the alias from indices that match
  \<^verbatim>\<open>alias-*\<close>. What holds is this. If the body completes and every index the alias was on
  before matches \<^verbatim>\<open>alias-*\<close> (none at all on a first run, or one earlier generation),
  then afterwards the alias is on exactly one index, the new generation. The deletions of
  the run are those of the names a listing of \<^verbatim>\<open>alias-*\<close> returned, the new generation
  left out; the listing was taken on the state the \<^verbatim>\<open>update_aliases\<close> request left, and
  it held every index of the backend that matches \<^verbatim>\<open>alias-*\<close>. Afterwards the backend
  holds the new generation and the indices that do not match, and nothing else: all
  earlier generations are gone.
\<close>

theorem reindex_leaves_newest_generation:
  assumes run: "reindex_doc doc w = (Return (), w')"
    and gens: "\<forall>i \<in> set (alias_targets (doc_index doc) (backend w)). prefix (doc_index doc @ ''-'') i"
  shows "let a = doc_index doc; nx = generation_name a (clock w (clock_reads w)) in
     set (alias_targets a (backend w')) = {nx} \<and>
     (\<exists>s L. (UpdateAliases [Remove a (a @ ''-*''), Add a nx], s) \<in> set (new_events w w') \<and>
         (GetIndices (a @ ''-*''), s) \<in> set (new_events w w') \<and>
         es_get (a @ ''-*'') s = Inr L \<and>
         set L = {m \<in> set (es_names (backend w)). prefix (a @ ''-'') m} \<union> {nx} \<and>
         filter is_delete (map fst (new_events w w')) =
           map IndexDelete (filter (\<lambda>i. i \<noteq> nx) L)) \<and>
     set (es_names (backend w')) =
       {m \<in> set (es_names (backend w)). \<not> prefix (a @ ''-'') m} \<union> {nx}"
proof -
  let ?a = "doc_index doc"
  let ?nx = "generation_name ?a (clock w (clock_reads w))"
  let ?s1 = "backend w @ [(?nx, [])]"
  let ?s4 = "add_alias ?a ?nx ?s1"
  let ?s5 = "add_alias ?a ?nx (remove_alias ?a (?a @ ''-*'') ?s4)"
  let ?L = "remdups (resolve (?a @ ''-*'') ?s5)"
  let ?old = "filter (\<lambda>i. i \<noteq> ?nx) ?L"
  let ?acts = "[Remove ?a (?a @ ''-*''), Add ?a ?nx]"
  have free: "?nx \<notin> set (es_names (backend w))"
    using run reindex_doc_taken [of doc w] by auto
  from reindex_doc_created [OF free] run
  have b: "backend w' = without ?old ?s5"
    and tr: "trace w' = trace w @
      [(IndexCreate ?nx, ?s1), (Bulk ?nx (doc_queryset doc), ?s1), (Refresh ?nx, ?s1),
       (PutAlias ?nx ?a, ?s4), (UpdateAliases ?acts, ?s5),
       (GetIndices (?a @ ''-*''), ?s5)] @ delete_events ?old ?s5"
    unfolding Let_def by auto
  have ev: "new_events w w' =
      [(IndexCreate ?nx, ?s1), (Bulk ?nx (doc_queryset doc), ?s1), (Refresh ?nx, ?s1),
       (PutAlias ?nx ?a, ?s4), (UpdateAliases ?acts, ?s5),
       (GetIndices (?a @ ''-*''), ?s5)] @ delete_events ?old ?s5"
    by (simp add: new_events_def tr)
  have "es_names ?s5 = es_names ?s1"
    by simp
  then have names5: "set (es_names ?s5) = insert ?nx (set (es_names (backend w)))"
    by (simp add: es_names_def)
  have L: "set ?L = {m \<in> set (es_names (backend w)). prefix (?a @ ''-'') m} \<union> {?nx}"
    unfolding set_remdups resolve_def set_filter names5 by auto
  have 1: "set (alias_targets ?a (backend w')) = {?nx}"
    unfolding b targets_without targets_after_update using gens by auto
  have 2: "(UpdateAliases ?acts, ?s5) \<in> set (new_events w w')"
      "(GetIndices (?a @ ''-*''), ?s5) \<in> set (new_events w w')"
    unfolding ev by simp_all
  have 3: "es_get (?a @ ''-*'') ?s5 = Inr ?L"
    by (simp add: es_get_def)
  have 4: "filter is_delete (map fst (new_events w w')) = map IndexDelete ?old"
    unfolding ev by (simp add: delete_events_calls filter_delete_calls)
  have 5: "set (es_names (backend w')) =
      {m \<in> set (es_names (backend w)). \<not> prefix (?a @ ''-'') m} \<union> {?nx}"
    unfolding b names_without names5 using L by auto
  have "\<exists>s L. (UpdateAliases ?acts, s) \<in> set (new_events w w') \<and>
         (GetIndices (?a @ ''-*''), s) \<in> set (new_events w w') \<and>
         es_get (?a @ ''-*'') s = Inr L \<and>
         set L = {m \<in> set (es_names (backend w)). prefix (?a @ ''-'') m} \<union> {?nx} \<and>
         filter is_delete (map fst (new_events w w')) =
           map IndexDelete (filter (\<lambda>i. i \<noteq> ?nx) L)"
    using 2 3 L 4 by (intro exI [of _ ?s5] exI [of _ ?L]) blast
  with 1 5 show ?thesis
    unfolding Let_def by blast
qed


text \<open>
  The run from a backend whose alias is on one earlier generation: the indices the alias
  is on after each of the seven requests.
\<close>

theorem alias_never_unset_during_reindex_witness:
  "alias_targets ''articles'' (backend live) = [''articles-2020.01.01.00.00.00''] \<and>
   fst (reindex_doc post_document live) = Return () \<and>
   map (\<lambda>(c, s). alias_targets ''articles'' s)
     (new_events live (snd (reindex_doc post_document live))) =
     [[''articles-2020.01.01.00.00.00''], [''articles-2020.01.01.00.00.00''],
      [''articles-2020.01.01.00.00.00''],
      [''articles-2020.01.01.00.00.00'', ''articles-2020.01.02.12.00.00''],
      [''articles-2020.01.02.12.00.00''], [''articles-2020.01.02.12.00.00''],
      [''articles-2020.01.02.12.00.00'']]"
proof -
  have "trace live = []" and "backend live = [(''articles-2020.01.01.00.00.00'', [''articles''])]"
    by (simp_all add: live_def)
  then show ?thesis
    using alias_never_unset_during_reindex [of post_document live] live_run
    by (simp add: new_events_def alias_targets_def)
qed

text \<open>
  C1 fails as stated: in that run, started through \<^verbatim>\<open>handle\<close>, the state after the
  fourth request (the \<^verbatim>\<open>put_alias\<close>) has the alias on two indices.
\<close>

theorem put_alias_leaves_alias_on_two_indices:
  "fst (handle site reindex_options [] live) = Return () \<and>
   alias_targets ''articles'' (backend live) = [''articles-2020.01.01.00.00.00''] \<and>
   trace (snd (handle site reindex_options [] live)) ! 3 =
     (PutAlias ''articles-2020.01.02.12.00.00'' ''articles'',
      [(''articles-2020.01.01.00.00.00'', [''articles'']),
       (''articles-2020.01.02.12.00.00'', [''articles''])]) \<and>
   alias_targets ''articles''
     [(''articles-2020.01.01.00.00.00'', [''articles'']),
      (''articles-2020.01.02.12.00.00'', [''articles''])] =
     [''articles-2020.01.01.00.00.00'', ''articles-2020.01.02.12.00.00'']"
proof -
  obtain w' where run: "reindex_doc post_document live = (Return (), w')"
    using live_run by (cases "reindex_doc post_document live") auto
  have "backend live = [(''articles-2020.01.01.00.00.00'', [''articles''])]"
    by (simp add: live_def)
  then show ?thesis
    using live_run by (simp add: handle_reindex run alias_targets_def)
qed

text \<open>
  The run from a backend with two earlier generations and an index of another name: both
  generations are deleted, the other index stays.
\<close>

theorem reindex_leaves_newest_generation_witness:
  "fst (reindex_doc post_document crowded) = Return () \<and>
   alias_targets ''articles'' (backend crowded) = [''articles-2020.01.01.00.00.00''] \<and>
   prefix ''articles-'' ''articles-2020.01.01.00.00.00'' \<and>
   set (alias_targets ''articles'' (backend (snd (reindex_doc post_document crowded)))) =
     {''articles-2020.01.02.12.00.00''} \<and>
   set (es_names (backend (snd (reindex_doc post_document crowded)))) =
     {''authors'', ''articles-2020.01.02.12.00.00''} \<and>
   filter is_delete (map fst (trace (snd (reindex_doc post_document crowded)))) =
     [IndexDelete ''articles-2019.12.31.00.00.00'', IndexDelete ''articles-2020.01.01.00.00.00'']"
proof -
  obtain w' where run: "reindex_doc post_document crowded = (Return (), w')"
    using crowded_run by (cases "reindex_doc post_document crowded") auto
  have before: "alias_targets ''articles'' (backend crowded) = [''articles-2020.01.01.00.00.00'']"
    by (simp add: crowded_def alias_targets_def)
  have gens: "\<forall>i \<in> set (alias_targets (doc_index post_document) (backend crowded)).
      prefix (doc_index post_document @ ''-'') i"
    by (simp add: post_document_def before)
  have "set (alias_targets (doc_index post_document) (backend w')) =
      {generation_name (doc_index post_document) (clock crowded (clock_reads crowded))}"
    using reindex_leaves_newest_generation [OF run gens] unfolding Let_def by blast
  then have after: "set (alias_targets ''articles'' (backend w')) = {''articles-2020.01.02.12.00.00''}"
    by (simp add: post_document_def crowded_def generation_name_def strftime_noon)
  show ?thesis
    using crowded_run before after by (simp add: run es_names_def insert_commute)
qed

text \<open>
  C2 fails as stated: a run completes from a backend where the alias is on one index
  whose name is not a generation's, and leaves the alias on two indices; and a run
  completes from an empty backend, where the alias was on no index before.
\<close>

theorem reindex_on_aliases_not_on_one_generation:
  "fst (handle site reindex_options [] legacy) = Return () \<and>
   alias_targets ''articles'' (backend legacy) = [''articles_v1''] \<and>
   alias_targets ''articles'' (backend (snd (handle site reindex_options [] legacy))) =
     [''articles_v1'', ''articles-2020.01.02.12.00.00''] \<and>
   fst (handle site reindex_options [] fresh) = Return () \<and>
   alias_targets ''articles'' (backend fresh) = []"
proof -
  obtain w1 where 1: "reindex_doc post_document legacy = (Return (), w1)"
    using legacy_run by (cases "reindex_doc post_document legacy") auto
  obtain w2 where 2: "reindex_doc post_document fresh = (Return (), w2)"
    using fresh_run by (cases "reindex_doc post_document fresh") auto
  have "backend legacy = [(''articles_v1'', [''articles''])]" and "backend fresh = []"
    by (simp_all add: legacy_def fresh_def)
  then show ?thesis
    using legacy_run fresh_run by (simp add: handle_reindex 1 2 alias_targets_def)
qed


end
